theory Spec2Isabelle
  imports Main
begin

section \<open>Constants of \<^verbatim>\<open>main.c\<close>\<close>

definition TIMESTAMP_LENGTH :: nat where "TIMESTAMP_LENGTH = 10"
definition BUFFER_POOL_SIZE :: nat where "BUFFER_POOL_SIZE = 16"
definition MAX_CONNECTIONS :: nat where "MAX_CONNECTIONS = 1024"
definition MAX_MESSAGE_LENGTH :: nat where "MAX_MESSAGE_LENGTH = 140"
definition MAX_NICK_LENGTH :: nat where "MAX_NICK_LENGTH = 20"
definition MAX_HISTORY_LENGTH :: nat where "MAX_HISTORY_LENGTH = 50"
definition MAX_PACKAGE_LENGTH :: nat where
  "MAX_PACKAGE_LENGTH = TIMESTAMP_LENGTH + MAX_NICK_LENGTH + MAX_MESSAGE_LENGTH + 3"

definition PACKAGE_BEGIN_MY_NAME_IS :: string where "PACKAGE_BEGIN_MY_NAME_IS = ''my name is ''"
definition PACKAGE_BEGIN_SEND :: string where "PACKAGE_BEGIN_SEND = ''send ''"
definition PACKAGE_OK :: string where "PACKAGE_OK = ''ok''"
definition PACKAGE_FOLKS :: string where "PACKAGE_FOLKS = ''folks''"
definition PACKAGE_NEW :: string where "PACKAGE_NEW = ''new''"

definition CRLF :: string where "CRLF = [CHR 0x0D, CHR 0x0A]"

lemmas limits =
  TIMESTAMP_LENGTH_def BUFFER_POOL_SIZE_def MAX_CONNECTIONS_def MAX_MESSAGE_LENGTH_def
  MAX_NICK_LENGTH_def MAX_HISTORY_LENGTH_def MAX_PACKAGE_LENGTH_def

lemmas packages =
  PACKAGE_BEGIN_MY_NAME_IS_def PACKAGE_BEGIN_SEND_def PACKAGE_OK_def PACKAGE_FOLKS_def
  PACKAGE_NEW_def

section \<open>Data\<close>

text \<open>
  A C string is modelled as the list of its bytes in front of the terminating NUL, so
  \<^verbatim>\<open>strlen\<close> is \<^const>\<open>length\<close>. A \<^verbatim>\<open>struct Buffer\<close> is the list of its first
  \<^verbatim>\<open>used\<close> bytes; its capacity is \<^const>\<open>MAX_PACKAGE_LENGTH\<close>.
\<close>

record timespec =
  tv_sec :: int
  tv_nsec :: int

record tm =
  tm_hour :: int
  tm_min :: int
  tm_sec :: int

text \<open>
  A \<^verbatim>\<open>struct LinkedBuffer\<close> is one element of the array \<^verbatim>\<open>free_buffers\<close>: \<open>slot\<close> is its
  position there, \<open>buffer\<close> the bytes it holds. The \<^verbatim>\<open>next\<close> pointers chain the elements
  into lists, and a chain is modelled as the list of its elements (the free list from
  \<^verbatim>\<open>first_free_buffer\<close>; a \<^verbatim>\<open>struct ListOfBuffers\<close> from \<^verbatim>\<open>first\<close> to \<^verbatim>\<open>last\<close>, empty when
  both are \<^verbatim>\<open>NULL\<close>).
\<close>

record LinkedBuffer =
  slot :: nat
  buffer :: string

datatype poll_events = POLLIN | POLLOUT

text \<open>
  One slot of the table \<^verbatim>\<open>connections\<close>: the \<^verbatim>\<open>struct pollfd\<close> of \<^verbatim>\<open>connections.sockets\<close>
  (\<open>fd\<close>, \<open>events\<close>) together with the \<^verbatim>\<open>struct ConnectionData\<close> of \<^verbatim>\<open>connections.data\<close> at
  the same index.
\<close>

record Connection =
  fd :: int
  events :: poll_events
  closed :: bool
  nick :: string
  last_received_message :: timespec
  pending_to_be_sent :: "LinkedBuffer list"
  input_buffer :: string

record Message =
  msg_nick :: string
  msg_data :: string
  msg_time :: timespec

text \<open>
  The global \<^verbatim>\<open>history\<close>: \<open>messages\<close> is the array of \<^const>\<open>MAX_HISTORY_LENGTH\<close> elements
  (all of them, also those at and after \<open>hist_length\<close>), \<open>hist_length\<close> the field
  \<^verbatim>\<open>history.length\<close>.
\<close>

record History =
  messages :: "Message list"
  hist_length :: nat

text \<open>
  The state of the process and of the part of its environment that the code reads or
  changes:
  \<^item> \<open>connections\<close> holds the slots \<open>[0, connections.length)\<close> of the table, so that
    \<^verbatim>\<open>connections.length\<close> is the length of the list (slots at and after the length are
    written before they are read);
  \<^item> \<open>first_free_buffer\<close> is the free list of the pool;
  \<^item> \<open>clock\<close> and \<open>ticks\<close> are the realtime clock: the \<open>k\<close>-th call of \<^verbatim>\<open>clock_gettime\<close>
    answers \<open>clock k\<close>, \<open>None\<close> when it fails;
  \<^item> \<open>localtime_r\<close> is the conversion of the C library, \<open>None\<close> when it fails;
  \<^item> \<open>closed_fds\<close> lists the descriptors on which \<^verbatim>\<open>close\<close> was called, latest first;
  \<^item> \<open>before_history\<close> is what the memory in front of \<^verbatim>\<open>history.messages\<close> holds, read as a
    \<^verbatim>\<open>struct Message\<close>.
\<close>

record Server =
  connections :: "Connection list"
  history :: History
  first_free_buffer :: "LinkedBuffer list"
  clock :: "nat \<Rightarrow> timespec option"
  ticks :: nat
  localtime_r :: "int \<Rightarrow> tm option"
  closed_fds :: "int list"
  before_history :: Message

text \<open>
  What ends a run of the code other than a return: \<^verbatim>\<open>die\<close> (the process exits), a failed
  \<^verbatim>\<open>assert\<close>, a store past the end of an array (the array and the first index or offset
  outside it), and a loop that can make no progress.
\<close>

datatype fault =
    Died string
  | AssertionFailed string
  | OutOfBoundsWrite string nat
  | NoProgress

section \<open>Clock\<close>

definition get_time :: "Server \<Rightarrow> fault + (timespec \<times> Server)" where
  "get_time s =
     (case clock s (ticks s) of
        None \<Rightarrow> Inl (Died ''clock_gettime failed'')
      | Some time \<Rightarrow> Inr (time, s\<lparr>ticks := ticks s + 1\<rparr>))"

section \<open>Buffer pool\<close>

definition init :: "LinkedBuffer list" where
  "init = map (\<lambda>i. \<lparr>slot = i, buffer = []\<rparr>) [0..<BUFFER_POOL_SIZE]"

definition take_buffer :: "Server \<Rightarrow> fault + (LinkedBuffer \<times> Server)" where
  "take_buffer s =
     (case first_free_buffer s of
        [] \<Rightarrow> Inl (Died ''Memory limit exceeded'')
      | b # rest \<Rightarrow> Inr (b\<lparr>buffer := []\<rparr>, s\<lparr>first_free_buffer := rest\<rparr>))"

definition release_buffer :: "LinkedBuffer \<Rightarrow> Server \<Rightarrow> Server" where
  "release_buffer b s = s\<lparr>first_free_buffer := b # first_free_buffer s\<rparr>"

section \<open>Chained output queue\<close>

text \<open>
  The loop of \<^verbatim>\<open>send_later\<close>. \<open>front\<close> and \<open>lastb\<close> are the chain of the client: \<open>lastb\<close> is
  \<^verbatim>\<open>pending->last\<close>, \<open>front\<close> the elements in front of it. When \<^verbatim>\<open>part_size\<close> is 0 the C loop
  repeats without any change of \<^verbatim>\<open>stored\<close>; that run is the fault \<^const>\<open>NoProgress\<close>.
\<close>

function store_loop ::
  "nat \<Rightarrow> string \<Rightarrow> Server \<Rightarrow> LinkedBuffer list \<Rightarrow> LinkedBuffer \<Rightarrow>
     fault + (Server \<times> LinkedBuffer list \<times> LinkedBuffer)" where
  "store_loop stored message s front lastb =
     (if stored < length message then
        (case (if stored \<noteq> 0
               then (case take_buffer s of
                       Inl e \<Rightarrow> Inl e
                     | Inr (b, s1) \<Rightarrow> Inr (s1, front @ [lastb], b))
               else Inr (s, front, lastb)) of
           Inl e \<Rightarrow> Inl e
         | Inr (s1, front1, last1) \<Rightarrow>
             (let part_size = min (MAX_PACKAGE_LENGTH - length (buffer last1))
                                  (length message - stored)
              in if part_size = 0 then Inl NoProgress
                 else store_loop (stored + part_size) message s1 front1
                        (last1\<lparr>buffer := buffer last1 @ take part_size (drop stored message)\<rparr>)))
      else Inr (s, front, lastb))"
  by pat_completeness auto
termination
  by (relation "measure (\<lambda>(stored, message, s, front, lastb). length message - stored)") auto

definition send_later :: "nat \<Rightarrow> string \<Rightarrow> Server \<Rightarrow> fault + Server" where
  "send_later client message s =
     (let pending = pending_to_be_sent (connections s ! client) in
      case (if pending = []
            then (case take_buffer s of
                    Inl e \<Rightarrow> Inl e
                  | Inr (b, s1) \<Rightarrow> Inr (s1, [], b))
            else if length (buffer (last pending)) = MAX_PACKAGE_LENGTH
            then (case take_buffer s of
                    Inl e \<Rightarrow> Inl e
                  | Inr (b, s1) \<Rightarrow> Inr (s1, pending, b))
            else Inr (s, butlast pending, last pending)) of
        Inl e \<Rightarrow> Inl e
      | Inr (s1, front, lastb) \<Rightarrow>
          (case store_loop 0 message s1 front lastb of
             Inl e \<Rightarrow> Inl e
           | Inr (s2, front2, last2) \<Rightarrow>
               Inr (s2\<lparr>connections := (connections s2)
                      [client := (connections s2 ! client)
                         \<lparr>pending_to_be_sent := front2 @ [last2], events := POLLOUT\<rparr>]\<rparr>)))"

definition send_package :: "nat \<Rightarrow> string \<Rightarrow> Server \<Rightarrow> fault + Server" where
  "send_package client message s =
     (case send_later client message s of
        Inl e \<Rightarrow> Inl e
      | Inr s1 \<Rightarrow> send_later client CRLF s1)"

definition starts_with :: "string \<Rightarrow> string \<Rightarrow> bool" where
  "starts_with string start = (take (length start) string = start)"

section \<open>History store\<close>

text \<open>
  \<^verbatim>\<open>add_to_history\<close>. The \<^verbatim>\<open>memmove\<close> copies the elements \<open>[0, length)\<close> to \<open>[1, length + 1)\<close>;
  the last element it stores is \<open>messages[length]\<close>, which is outside the array when the
  length is \<^const>\<open>MAX_HISTORY_LENGTH\<close>. Each \<^verbatim>\<open>strcpy\<close> stores the string and its NUL.
\<close>

definition add_to_history :: "string \<Rightarrow> string \<Rightarrow> Server \<Rightarrow> fault + Server" where
  "add_to_history nick' message s =
     (case get_time s of
        Inl e \<Rightarrow> Inl e
      | Inr (now, s1) \<Rightarrow>
          (let h = history s1; n = hist_length h; m = messages h in
           if MAX_HISTORY_LENGTH < 1 + n
           then Inl (OutOfBoundsWrite ''history.messages'' n)
           else if MAX_NICK_LENGTH + 1 < length nick' + 1
           then Inl (OutOfBoundsWrite ''history.messages[0].nick'' (MAX_NICK_LENGTH + 1))
           else if MAX_MESSAGE_LENGTH + 1 < length message + 1
           then Inl (OutOfBoundsWrite ''history.messages[0].data'' (MAX_MESSAGE_LENGTH + 1))
           else Inr (s1\<lparr>history :=
                  \<lparr>messages = (take 1 m @ take n m @ drop (1 + n) m)
                       [0 := \<lparr>msg_nick = nick', msg_data = message, msg_time = now\<rparr>],
                   hist_length = (if n < MAX_HISTORY_LENGTH then n + 1 else n)\<rparr>\<rparr>)))"

definition older :: "timespec \<Rightarrow> timespec \<Rightarrow> bool" where
  "older a b = (tv_sec a < tv_sec b \<or> (tv_sec a = tv_sec b \<and> tv_nsec a < tv_nsec b))"

text \<open>
  A read of \<^verbatim>\<open>history.messages[i]\<close>. An index outside the array reads the memory beside it;
  for the index \<open>-1\<close>, the only one outside the array that the code reaches, that is
  \<open>before_history\<close>.
\<close>

definition read_message :: "Server \<Rightarrow> int \<Rightarrow> Message" where
  "read_message s i =
     (if 0 \<le> i \<and> i < int (length (messages (history s)))
      then messages (history s) ! nat i
      else before_history s)"

text \<open>
  The first loop of the \<^verbatim>\<open>new\<close> branch:
  \<^verbatim>\<open>while (older(history.messages[i].time, last_received_message) && i >= 0) --i;\<close>
  The result is the final \<open>i\<close> together with the indices at which the loop read
  \<^verbatim>\<open>history.messages\<close>, in the order of the reads.
\<close>

function scan :: "Server \<Rightarrow> timespec \<Rightarrow> int \<Rightarrow> int \<times> int list" where
  "scan s last_received i =
     (if older (msg_time (read_message s i)) last_received \<and> i \<ge> 0
      then (case scan s last_received (i - 1) of (j, reads) \<Rightarrow> (j, i # reads))
      else (i, [i]))"
  by pat_completeness auto
termination
  by (relation "measure (\<lambda>(s, last_received, i). nat (i + 1))") auto

section \<open>Formatting\<close>

text \<open>\<^verbatim>\<open>sprintf\<close> with the conversions \<^verbatim>\<open>%d\<close> and \<^verbatim>\<open>%02d\<close> of an \<^verbatim>\<open>int\<close>.\<close>

fun dec_nat :: "nat \<Rightarrow> string" where
  "dec_nat n =
     (if n < 10 then [''0123456789'' ! n]
      else dec_nat (n div 10) @ [''0123456789'' ! (n mod 10)])"

definition sprintf_d :: "int \<Rightarrow> string" where
  "sprintf_d i = (if i < 0 then CHR ''-'' # dec_nat (nat (- i)) else dec_nat (nat i))"

definition sprintf_02d :: "int \<Rightarrow> string" where
  "sprintf_02d i = (let digits = sprintf_d i in replicate (2 - length digits) CHR ''0'' @ digits)"

text \<open>\<^verbatim>\<open>sprintf(outgoing, "[%02d:%02d:%02d] %s: %s", ...)\<close>: the characters stored, without the NUL.\<close>

definition format_message :: "tm \<Rightarrow> Message \<Rightarrow> string" where
  "format_message pretty_time m =
     ''['' @ sprintf_02d (tm_hour pretty_time) @ '':'' @ sprintf_02d (tm_min pretty_time) @ '':'' @
     sprintf_02d (tm_sec pretty_time) @ ''] '' @ msg_nick m @ '': '' @ msg_data m"

section \<open>Protocol handler\<close>

text \<open>The label \<^verbatim>\<open>close_connection\<close> of \<^verbatim>\<open>process_new_package\<close>: \<^verbatim>\<open>close\<close> the socket, return -1.\<close>

definition close_connection :: "nat \<Rightarrow> Server \<Rightarrow> fault + (int \<times> Server)" where
  "close_connection client s =
     Inr (- 1, s\<lparr>closed_fds := fd (connections s ! client) # closed_fds s\<rparr>)"

text \<open>The loop of the \<^verbatim>\<open>folks\<close> branch, over the indices \<open>1, ..., connections.length - 1\<close>.\<close>

fun folks_loop :: "nat \<Rightarrow> nat list \<Rightarrow> Server \<Rightarrow> fault + Server" where
  "folks_loop client [] s = Inr s"
| "folks_loop client (i # rest) s =
     (case send_package client (nick (connections s ! i)) s of
        Inl e \<Rightarrow> Inl e
      | Inr s1 \<Rightarrow> folks_loop client rest s1)"

text \<open>
  The second loop of the \<^verbatim>\<open>new\<close> branch, \<^verbatim>\<open>while (i >= 0) { ...; --i; }\<close>. The \<^verbatim>\<open>sprintf\<close>
  stores the formatted line and its NUL into \<^verbatim>\<open>outgoing\<close>, an array of
  \<^const>\<open>MAX_PACKAGE_LENGTH\<close> bytes.
\<close>

function new_loop :: "nat \<Rightarrow> int \<Rightarrow> Server \<Rightarrow> fault + (int \<times> Server)" where
  "new_loop client i s =
     (if i \<ge> 0 then
        (let m = read_message s i in
         case localtime_r s (tv_sec (msg_time m)) of
           None \<Rightarrow> close_connection client s
         | Some pretty_time \<Rightarrow>
             (let outgoing = format_message pretty_time m in
              if MAX_PACKAGE_LENGTH < length outgoing + 1
              then Inl (OutOfBoundsWrite ''outgoing'' MAX_PACKAGE_LENGTH)
              else (case send_package client outgoing s of
                      Inl e \<Rightarrow> Inl e
                    | Inr s1 \<Rightarrow> new_loop client (i - 1) s1)))
      else Inr (0, s))"
  by pat_completeness auto
termination
  by (relation "measure (\<lambda>(client, i, s). nat (i + 1))") auto

definition process_new_package :: "nat \<Rightarrow> string \<Rightarrow> Server \<Rightarrow> fault + (int \<times> Server)" where
  "process_new_package client package s =
     (if starts_with package PACKAGE_BEGIN_MY_NAME_IS then
        (let rest = drop (length PACKAGE_BEGIN_MY_NAME_IS) package in
         if MAX_NICK_LENGTH < length rest then close_connection client s
         else (case send_package client PACKAGE_OK
                      (s\<lparr>connections := (connections s)
                            [client := (connections s ! client)\<lparr>nick := rest\<rparr>]\<rparr>) of
                 Inl e \<Rightarrow> Inl e
               | Inr s1 \<Rightarrow> Inr (0, s1)))
      else if package = PACKAGE_FOLKS then
        (case send_package client (sprintf_d (int (length (connections s)) - 1)) s of
           Inl e \<Rightarrow> Inl e
         | Inr s1 \<Rightarrow>
             (case folks_loop client [1..<length (connections s1)] s1 of
                Inl e \<Rightarrow> Inl e
              | Inr s2 \<Rightarrow> Inr (0, s2)))
      else if starts_with package PACKAGE_BEGIN_SEND then
        (let rest = drop (length PACKAGE_BEGIN_SEND) package in
         if MAX_MESSAGE_LENGTH < length rest then Inr (- 1, s)
         else (case add_to_history (nick (connections s ! client)) rest s of
                 Inl e \<Rightarrow> Inl e
               | Inr s1 \<Rightarrow>
                   (case send_package client PACKAGE_OK s1 of
                      Inl e \<Rightarrow> Inl e
                    | Inr s2 \<Rightarrow> Inr (0, s2))))
      else if package = PACKAGE_NEW then
        (let last_received = last_received_message (connections s ! client);
             i = fst (scan s last_received (int (hist_length (history s)) - 1))
         in case send_package client (sprintf_d (i + 1)) s of
              Inl e \<Rightarrow> Inl e
            | Inr s1 \<Rightarrow>
                (case new_loop client i s1 of
                   Inl e \<Rightarrow> Inl e
                 | Inr (rc, s2) \<Rightarrow>
                     if rc \<noteq> 0 then Inr (rc, s2)
                     else (case get_time s2 of
                             Inl e \<Rightarrow> Inl e
                           | Inr (now, s3) \<Rightarrow>
                               Inr (0, s3\<lparr>connections := (connections s3)
                                      [client := (connections s3 ! client)
                                         \<lparr>last_received_message := now\<rparr>]\<rparr>))))
      else close_connection client s)"

section \<open>Input line framer\<close>

text \<open>
  \<^verbatim>\<open>strstr\<close> on C strings: the offset of the first occurrence of the needle. The haystack
  of a call is the C string at a pointer into a byte array, \<open>c_string\<close> of the bytes from
  there on.
\<close>

fun strstr :: "string \<Rightarrow> string \<Rightarrow> nat option" where
  "strstr [] needle = (if needle = [] then Some 0 else None)"
| "strstr (c # cs) needle =
     (if take (length needle) (c # cs) = needle then Some 0
      else map_option Suc (strstr cs needle))"

definition c_string :: "string \<Rightarrow> string" where
  "c_string bytes = takeWhile (\<lambda>c. c \<noteq> CHR 0x00) bytes"

lemma strstr_in_haystack: "strstr h needle = Some k \<Longrightarrow> needle \<noteq> [] \<Longrightarrow> h \<noteq> []"
  by (cases h) auto

text \<open>
  The loop of \<^verbatim>\<open>process_new_data\<close>. \<open>data\<close> holds the \<^verbatim>\<open>used\<close> bytes of the input buffer (the
  NUL that \<^verbatim>\<open>handle_input\<close> stores behind them ends the C string), \<open>begin\<close> is the offset
  of the pointer \<^verbatim>\<open>begin\<close> in the buffer. The result is the value returned and the final
  \<open>begin\<close>. The NUL stored over the CR of a package lies in front of the next \<open>begin\<close>, in
  bytes that are not read again.
\<close>

function packages_loop :: "nat \<Rightarrow> string \<Rightarrow> nat \<Rightarrow> Server \<Rightarrow> fault + (int \<times> nat \<times> Server)" where
  "packages_loop client data begin s =
     (case strstr (c_string (drop begin data)) CRLF of
        None \<Rightarrow>
          if begin = 0 \<and> MAX_PACKAGE_LENGTH - 1 = length data
          then Inr (- 1, begin, s\<lparr>closed_fds := fd (connections s ! client) # closed_fds s\<rparr>)
          else Inr (0, begin, s)
      | Some end_of_package \<Rightarrow>
          (case process_new_package client (take end_of_package (drop begin data)) s of
             Inl e \<Rightarrow> Inl e
           | Inr (rc, s1) \<Rightarrow>
               if rc = - 1 then Inr (- 1, begin, s1)
               else packages_loop client data (begin + end_of_package + 2) s1))"
  by pat_completeness auto
termination
proof (relation "measure (\<lambda>(client, data, begin, s). length data - begin)")
  show "wf (measure (\<lambda>(client, data, begin, s). length data - begin))"
    by simp
next
  fix client :: nat and data :: string and b :: nat and s :: Server
    and end_of_package :: nat and x :: "int \<times> Server" and rc :: int and s1 :: Server
  assume "strstr (c_string (drop b data)) CRLF = Some end_of_package"
  then have "c_string (drop b data) \<noteq> []"
    by (rule strstr_in_haystack) (simp add: CRLF_def)
  then have "b < length data"
    by (cases "b < length data") (simp_all add: c_string_def)
  then show "((client, data, b + end_of_package + 2, s1), (client, data, b, s))
      \<in> measure (\<lambda>(client, data, begin, s). length data - begin)"
    by simp
qed

definition process_new_data :: "nat \<Rightarrow> Server \<Rightarrow> fault + (int \<times> Server)" where
  "process_new_data client s =
     (let data = input_buffer (connections s ! client) in
      case packages_loop client data 0 s of
        Inl e \<Rightarrow> Inl e
      | Inr (rc, begin, s1) \<Rightarrow>
          if rc = - 1 then Inr (- 1, s1)
          else Inr (0, s1\<lparr>connections := (connections s1)
                      [client := (connections s1 ! client)\<lparr>input_buffer := drop begin data\<rparr>]\<rparr>))"

section \<open>Event handlers\<close>

definition mark_closed :: "nat \<Rightarrow> Server \<Rightarrow> Server" where
  "mark_closed client s =
     s\<lparr>connections := (connections s)[client := (connections s ! client)\<lparr>closed := True\<rparr>]\<rparr>"

text \<open>
  The answer of \<^verbatim>\<open>recv\<close>: it failed (-1), or these bytes arrived (none at the end of the
  stream); \<^verbatim>\<open>recv\<close> stores at most as many bytes as the call asks for.
\<close>

datatype recv_result = RecvFailed | Received string

definition handle_input :: "nat \<Rightarrow> recv_result \<Rightarrow> Server \<Rightarrow> fault + Server" where
  "handle_input client answer s =
     (let data = input_buffer (connections s ! client) in
      case answer of
        RecvFailed \<Rightarrow> Inr (mark_closed client s)
      | Received bytes \<Rightarrow>
          (let received = take (MAX_PACKAGE_LENGTH - length data - 1) bytes in
           if received = [] then Inr (mark_closed client s)
           else (case process_new_data client
                        (s\<lparr>connections := (connections s)
                              [client := (connections s ! client)
                                 \<lparr>input_buffer := data @ received\<rparr>]\<rparr>) of
                   Inl e \<Rightarrow> Inl e
                 | Inr (rc, s1) \<Rightarrow>
                     if rc = - 1 then Inr (mark_closed client s1) else Inr s1)))"

text \<open>
  The answer of one \<^verbatim>\<open>send\<close>: the number of bytes it took, -1 with \<^verbatim>\<open>EWOULDBLOCK\<close> or
  \<^verbatim>\<open>EAGAIN\<close>, or -1 with another error. \<open>answers k\<close> is the answer to the \<open>k\<close>-th call of one
  run of \<^verbatim>\<open>handle_output\<close>; the list argument of the loop is the chain from
  \<^verbatim>\<open>pending->first\<close>.
\<close>

datatype send_result = Sent nat | WouldBlock | SendFailed

fun output_loop ::
  "nat \<Rightarrow> (nat \<Rightarrow> send_result) \<Rightarrow> nat \<Rightarrow> LinkedBuffer list \<Rightarrow> Server \<Rightarrow> fault + Server" where
  "output_loop client answers k [] s = Inl (AssertionFailed ''pending->first'')"
| "output_loop client answers k (b # rest) s =
     (case answers k of
        WouldBlock \<Rightarrow> Inr s
      | SendFailed \<Rightarrow> Inl (Died ''send failed'')
      | Sent sent \<Rightarrow>
          if sent \<noteq> length (buffer b)
          then Inl (AssertionFailed ''sent == buffer->buffer.used'')
          else (let s1 = release_buffer b
                      (s\<lparr>connections := (connections s)
                            [client := (connections s ! client)\<lparr>pending_to_be_sent := rest\<rparr>]\<rparr>)
                in if rest = []
                   then Inr (s1\<lparr>connections := (connections s1)
                               [client := (connections s1 ! client)\<lparr>events := POLLIN\<rparr>]\<rparr>)
                   else output_loop client answers (k + 1) rest s1))"

definition handle_output :: "nat \<Rightarrow> (nat \<Rightarrow> send_result) \<Rightarrow> Server \<Rightarrow> fault + Server" where
  "handle_output client answers s =
     output_loop client answers 0 (pending_to_be_sent (connections s ! client)) s"

section \<open>Connection table and event loop\<close>

text \<open>
  \<^verbatim>\<open>accept_new_client\<close>, given the descriptor that \<^verbatim>\<open>accept\<close> returns. The stores go to the
  slot \<open>n = connections.length\<close> of arrays of \<^const>\<open>MAX_CONNECTIONS\<close> elements.
\<close>

definition accept_new_client :: "int \<Rightarrow> Server \<Rightarrow> fault + Server" where
  "accept_new_client client_fd s =
     (if client_fd < 0 then Inl (Died ''accept failed'')
      else (let n = length (connections s) in
            if MAX_CONNECTIONS \<le> n then Inl (OutOfBoundsWrite ''connections.sockets'' n)
            else (case get_time s of
                    Inl e \<Rightarrow> Inl e
                  | Inr (now, s1) \<Rightarrow>
                      Inr (s1\<lparr>connections := connections s1 @
                             [\<lparr>fd = client_fd, events = POLLIN, closed = False,
                               nick = ''anonym'', last_received_message = now,
                               pending_to_be_sent = [], input_buffer = []\<rparr>]\<rparr>))))"

text \<open>
  \<^verbatim>\<open>clean_closed_sockets\<close> copies the slots that are not closed to the front of the table, in
  their order, and sets the length to their number.
\<close>

definition clean_closed_sockets :: "Server \<Rightarrow> Server" where
  "clean_closed_sockets s = s\<lparr>connections := filter (\<lambda>c. \<not> closed c) (connections s)\<rparr>"

text \<open>
  What \<^verbatim>\<open>poll\<close> reports for one slot (\<open>pollerr\<close> stands for any of \<^verbatim>\<open>POLLERR\<close>, \<^verbatim>\<open>POLLHUP\<close>,
  \<^verbatim>\<open>POLLNVAL\<close>), with the answers of the system calls made while the slot is served.
\<close>

record Readiness =
  pollin :: bool
  pollout :: bool
  pollerr :: bool
  accepted :: int
  received :: recv_result
  sent :: "nat \<Rightarrow> send_result"

text \<open>The \<^verbatim>\<open>for\<close> loop of \<^verbatim>\<open>main\<close> from slot \<open>i\<close> on, and one pass of its \<^verbatim>\<open>while (1)\<close>.\<close>

fun serve :: "nat \<Rightarrow> Readiness list \<Rightarrow> Server \<Rightarrow> fault + Server" where
  "serve i [] s = Inr s"
| "serve i (ev # evs) s =
     (case (if pollin ev
            then (if i = 0 then accept_new_client (accepted ev) s
                  else handle_input i (received ev) s)
            else Inr s) of
        Inl e \<Rightarrow> Inl e
      | Inr s1 \<Rightarrow>
          (case (if pollout ev
                 then (if i = 0 then Inl (AssertionFailed ''i'')
                       else handle_output i (sent ev) s1)
                 else if pollerr ev then Inr (mark_closed i s1)
                 else Inr s1) of
             Inl e \<Rightarrow> Inl e
           | Inr s2 \<Rightarrow> serve (i + 1) evs s2))"

definition iteration :: "Readiness list \<Rightarrow> Server \<Rightarrow> fault + Server" where
  "iteration evs s =
     (case serve 0 (take (length (connections s)) evs) s of
        Inl e \<Rightarrow> Inl e
      | Inr s1 \<Rightarrow> Inr (clean_closed_sockets s1))"

text \<open>
  The state when \<^verbatim>\<open>main\<close> enters its loop: \<^verbatim>\<open>init\<close> has chained the pool, \<^verbatim>\<open>prepare_server\<close>
  has put the listening socket into slot 0, and the rest of the static data is zero.
\<close>

definition prepare_server ::
  "int \<Rightarrow> (nat \<Rightarrow> timespec option) \<Rightarrow> (int \<Rightarrow> tm option) \<Rightarrow> Message \<Rightarrow> Server" where
  "prepare_server server_fd clk tz junk =
     \<lparr>connections =
        [\<lparr>fd = server_fd, events = POLLIN, closed = False, nick = [],
          last_received_message = \<lparr>tv_sec = 0, tv_nsec = 0\<rparr>,
          pending_to_be_sent = [], input_buffer = []\<rparr>],
      history =
        \<lparr>messages = replicate MAX_HISTORY_LENGTH
           \<lparr>msg_nick = [], msg_data = [], msg_time = \<lparr>tv_sec = 0, tv_nsec = 0\<rparr>\<rparr>,
         hist_length = 0\<rparr>,
      first_free_buffer = init,
      clock = clk, ticks = 0, localtime_r = tz, closed_fds = [], before_history = junk\<rparr>"

section \<open>Quantities of the specification\<close>

text \<open>The free blocks, and the blocks held by the output queues of the table.\<close>

definition free_blocks :: "Server \<Rightarrow> nat" where
  "free_blocks s = length (first_free_buffer s)"

definition held_blocks :: "Server \<Rightarrow> nat" where
  "held_blocks s = sum_list (map (\<lambda>c. length (pending_to_be_sent c)) (connections s))"

text \<open>The bytes a connection has still to send, in their order.\<close>

definition pending_bytes :: "Connection \<Rightarrow> string" where
  "pending_bytes c = concat (map buffer (pending_to_be_sent c))"

text \<open>The entries of the history, the newest first.\<close>

definition live :: "History \<Rightarrow> Message list" where
  "live h = take (hist_length h) (messages h)"

text \<open>
  The entries that the \<^verbatim>\<open>new\<close> branch of \<^verbatim>\<open>process_new_package\<close> formats for a client, in
  the order in which its second loop formats them: the entries at the indices
  \<open>i, i - 1, ..., 0\<close>, for the \<open>i\<close> with which its first loop ends.
\<close>

definition new_entries :: "nat \<Rightarrow> Server \<Rightarrow> Message list" where
  "new_entries client s =
     (let i = fst (scan s (last_received_message (connections s ! client))
                     (int (hist_length (history s)) - 1))
      in rev (take (nat (i + 1)) (messages (history s))))"

text \<open>
  The line of a history entry as the specification words it,
  \<^verbatim>\<open>[HH:MM:SS] <nick>: <message>\<close>, each field of the time with two digits; and the
  ranges of these fields in a \<^verbatim>\<open>struct tm\<close> that \<^verbatim>\<open>localtime_r\<close> fills.
\<close>

definition two_digits :: "int \<Rightarrow> string" where
  "two_digits v = [''0123456789'' ! (nat v div 10), ''0123456789'' ! (nat v mod 10)]"

definition spec_line :: "tm \<Rightarrow> Message \<Rightarrow> string" where
  "spec_line t m =
     ''['' @ two_digits (tm_hour t) @ '':'' @ two_digits (tm_min t) @ '':'' @
     two_digits (tm_sec t) @ ''] '' @ msg_nick m @ '': '' @ msg_data m"

definition tm_valid :: "tm \<Rightarrow> bool" where
  "tm_valid t \<longleftrightarrow>
     0 \<le> tm_hour t \<and> tm_hour t < 24 \<and> 0 \<le> tm_min t \<and> tm_min t < 60 \<and>
     0 \<le> tm_sec t \<and> tm_sec t \<le> 60"

text \<open>
  \<open>appended client bytes s s'\<close>: the state \<open>s'\<close> is \<open>s\<close> with \<open>bytes\<close> appended to the
  bytes that the client has still to send; the free list, the chain and the \<open>events\<close> of
  the client may differ, and nothing else does.
\<close>

definition appended :: "nat \<Rightarrow> string \<Rightarrow> Server \<Rightarrow> Server \<Rightarrow> bool" where
  "appended client bytes s s' \<longleftrightarrow>
     (\<exists>free queue ev.
        s' = s\<lparr>first_free_buffer := free,
               connections := (connections s)
                 [client := (connections s ! client)
                    \<lparr>pending_to_be_sent := queue, events := ev\<rparr>]\<rparr> \<and>
        concat (map buffer queue) = pending_bytes (connections s ! client) @ bytes)"


section \<open>Runs of the event loop\<close>

text \<open>
  The \<^verbatim>\<open>while (1)\<close> of \<^verbatim>\<open>main\<close>, for as many passes as there are reports of \<^verbatim>\<open>poll\<close>.
\<close>

fun run :: "Readiness list list \<Rightarrow> Server \<Rightarrow> fault + Server" where
  "run [] s = Inr s"
| "run (evs # rest) s =
     (case iteration evs s of
        Inl e \<Rightarrow> Inl e
      | Inr s1 \<Rightarrow> run rest s1)"

fun fault_of :: "fault + 'a \<Rightarrow> fault option" where
  "fault_of (Inl e) = Some e"
| "fault_of (Inr x) = None"

text \<open>
  A concrete environment: the clock advances by one second per reading from second 100,
  the local time is UTC, the listening socket is descriptor 3.
\<close>

definition example_clock :: "nat \<Rightarrow> timespec option" where
  "example_clock k = Some \<lparr>tv_sec = 100 + int k, tv_nsec = 0\<rparr>"

definition example_localtime :: "int \<Rightarrow> tm option" where
  "example_localtime t =
     Some \<lparr>tm_hour = (t div 3600) mod 24, tm_min = (t div 60) mod 60, tm_sec = t mod 60\<rparr>"

definition zero_message :: Message where
  "zero_message = \<lparr>msg_nick = [], msg_data = [], msg_time = \<lparr>tv_sec = 0, tv_nsec = 0\<rparr>\<rparr>"

definition listening :: Server where
  "listening = prepare_server 3 example_clock example_localtime zero_message"

definition quiet :: Readiness where
  "quiet = \<lparr>pollin = False, pollout = False, pollerr = False, accepted = - 1,
            received = RecvFailed, sent = (\<lambda>k. WouldBlock)\<rparr>"

definition arrives :: "int \<Rightarrow> Readiness" where
  "arrives client_fd = quiet\<lparr>pollin := True, accepted := client_fd\<rparr>"

definition readable :: "string \<Rightarrow> Readiness" where
  "readable bytes = quiet\<lparr>pollin := True, received := Received bytes\<rparr>"

definition writable :: "(nat \<Rightarrow> send_result) \<Rightarrow> Readiness" where
  "writable answers = quiet\<lparr>pollout := True, sent := answers\<rparr>"

definition line :: "string \<Rightarrow> string" where
  "line package = package @ CRLF"

text \<open>
  The room a client has for further bytes: the free blocks, and what is left in the last
  block of its chain. \<open>queue_ok\<close>: that last block holds no more than a block can.
\<close>

definition last_room :: "LinkedBuffer list \<Rightarrow> nat" where
  "last_room queue =
     (case queue of [] \<Rightarrow> 0 | b # bs \<Rightarrow> MAX_PACKAGE_LENGTH - length (buffer (last queue)))"

definition room :: "nat \<Rightarrow> Server \<Rightarrow> nat" where
  "room client s =
     free_blocks s * MAX_PACKAGE_LENGTH + last_room (pending_to_be_sent (connections s ! client))"

definition queue_ok :: "nat \<Rightarrow> Server \<Rightarrow> bool" where
  "queue_ok client s =
     (case pending_to_be_sent (connections s ! client) of
        [] \<Rightarrow> True
      | b # bs \<Rightarrow> length (buffer (last (pending_to_be_sent (connections s ! client))))
                    \<le> MAX_PACKAGE_LENGTH)"

text \<open>
  \<open>formats s m\<close>: the local time of the entry \<open>m\<close> can be computed and its line, with the
  NUL, fits into \<^verbatim>\<open>outgoing\<close>. \<open>reply_length\<close>: the bytes of the lines of the entries, each
  with its CRLF.
\<close>

definition formats :: "Server \<Rightarrow> Message \<Rightarrow> bool" where
  "formats s m =
     (case localtime_r s (tv_sec (msg_time m)) of
        None \<Rightarrow> False
      | Some pt \<Rightarrow> length (format_message pt m) < MAX_PACKAGE_LENGTH)"

definition reply_length :: "Server \<Rightarrow> Message list \<Rightarrow> nat" where
  "reply_length s entries =
     sum_list (map (\<lambda>m. length (line (format_message
                                       (the (localtime_r s (tv_sec (msg_time m)))) m))) entries)"


text \<open>
  A clock that does not advance between its readings; a history entry; and a state with
  one client (slot 1, cursor at second 100) and two entries, sent at the seconds 101 and
  102, in which the clock has been read three times.
\<close>

definition stuck_clock :: "nat \<Rightarrow> timespec option" where
  "stuck_clock k = Some \<lparr>tv_sec = 100, tv_nsec = 0\<rparr>"

definition entry :: "string \<Rightarrow> string \<Rightarrow> int \<Rightarrow> Message" where
  "entry name text' seconds =
     \<lparr>msg_nick = name, msg_data = text', msg_time = \<lparr>tv_sec = seconds, tv_nsec = 0\<rparr>\<rparr>"

definition two_sent :: Server where
  "two_sent =
     listening
       \<lparr>connections := connections listening @
          [\<lparr>fd = 4, events = POLLIN, closed = False, nick = ''bob'',
            last_received_message = \<lparr>tv_sec = 100, tv_nsec = 0\<rparr>,
            pending_to_be_sent = [], input_buffer = []\<rparr>],
        history := \<lparr>messages = [entry ''bob'' ''ho'' 102, entry ''bob'' ''hi'' 101] @
                                replicate 48 zero_message,
                    hist_length = 2\<rparr>,
        ticks := 3\<rparr>"


section \<open>The output queue and the \<^verbatim>\<open>new\<close> branch\<close>

text \<open>The recursive equations of the loops are unfolded by hand in the proofs below.\<close>

declare store_loop.simps [simp del] new_loop.simps [simp del] scan.simps [simp del]

lemma free_only_refl: "\<exists>free. s = s\<lparr>first_free_buffer := free\<rparr>"
  by (rule exI[of _ "first_free_buffer s"]) simp

lemma take_buffer_Inr:
  "take_buffer s = Inr (b, s1) \<Longrightarrow>
   \<exists>free. s1 = s\<lparr>first_free_buffer := free\<rparr> \<and> buffer b = []"
  by (auto simp: take_buffer_def split: list.splits)

lemma store_loop_Inr:
  "store_loop stored message s front lastb = Inr (s', front', lastb') \<Longrightarrow>
   stored \<le> length message \<Longrightarrow>
   (\<exists>free. s' = s\<lparr>first_free_buffer := free\<rparr>) \<and>
   concat (map buffer (front' @ [lastb'])) =
     concat (map buffer (front @ [lastb])) @ drop stored message"
proof (induction stored message s front lastb rule: store_loop.induct)
  case (1 stored message s front lastb)
  show ?case
  proof (cases "stored < length message")
    case False
    with "1.prems" show ?thesis by (auto simp: store_loop.simps free_only_refl)
  next
    case more: True
    let ?pre = "if stored \<noteq> 0
          then case take_buffer s of Inl x \<Rightarrow> Inl x
               | Inr (b, s1) \<Rightarrow> Inr (s1, front @ [lastb], b)
          else Inr (s, front, lastb)"
    from "1.prems"(1) more obtain s1 front1 last1 where pre: "?pre = Inr (s1, front1, last1)"
      by (subst (asm) store_loop.simps) (auto split: sum.splits if_splits)
    define part_size where
      "part_size = min (MAX_PACKAGE_LENGTH - length (buffer last1)) (length message - stored)"
    from "1.prems"(1) more pre have ps: "part_size \<noteq> 0"
      by (subst (asm) store_loop.simps) (auto simp: part_size_def Let_def split: if_splits)
    from "1.prems"(1) more pre ps
    have rec: "store_loop (stored + part_size) message s1 front1
                 (last1\<lparr>buffer := buffer last1 @ take part_size (drop stored message)\<rparr>)
               = Inr (s', front', lastb')"
      by (subst (asm) store_loop.simps) (auto simp: part_size_def Let_def split: if_splits)
    have le: "stored + part_size \<le> length message"
      using more by (simp add: part_size_def)
    from "1.IH"[OF more pre refl refl part_size_def ps rec le]
    have ih: "(\<exists>free. s' = s1\<lparr>first_free_buffer := free\<rparr>)"
      "concat (map buffer (front' @ [lastb'])) =
         concat (map buffer front1) @ buffer last1 @ take part_size (drop stored message) @
         drop (stored + part_size) message"
      by simp_all
    from pre have fr: "(\<exists>free. s1 = s\<lparr>first_free_buffer := free\<rparr>)"
      and same: "concat (map buffer front1) @ buffer last1 = concat (map buffer front) @ buffer lastb"
      by (auto simp: free_only_refl split: if_splits sum.splits dest!: take_buffer_Inr)
    have "take part_size (drop stored message) @ drop (stored + part_size) message = drop stored message"
      by (metis add.commute append_take_drop_id drop_drop)
    with ih(2) same have "concat (map buffer (front' @ [lastb'])) =
        concat (map buffer (front @ [lastb])) @ drop stored message"
      by simp
    moreover from ih(1) fr have "\<exists>free. s' = s\<lparr>first_free_buffer := free\<rparr>"
      by auto
    ultimately show ?thesis by simp
  qed
qed

lemma send_later_appended:
  assumes "send_later client message s = Inr s'" and "client < length (connections s)"
  shows "appended client message s s'"
proof -
  let ?pending = "pending_to_be_sent (connections s ! client)"
  let ?pre = "if ?pending = []
            then (case take_buffer s of
                    Inl e \<Rightarrow> Inl e
                  | Inr (b, s1) \<Rightarrow> Inr (s1, [], b))
            else if length (buffer (last ?pending)) = MAX_PACKAGE_LENGTH
            then (case take_buffer s of
                    Inl e \<Rightarrow> Inl e
                  | Inr (b, s1) \<Rightarrow> Inr (s1, ?pending, b))
            else Inr (s, butlast ?pending, last ?pending)"
  from assms(1) obtain s1 front lastb where pre: "?pre = Inr (s1, front, lastb)"
    by (auto simp: send_later_def Let_def split: sum.splits)
  from assms(1) pre obtain s2 front2 last2 where
    loop: "store_loop 0 message s1 front lastb = Inr (s2, front2, last2)"
    and s': "s' = s2\<lparr>connections := (connections s2)
                      [client := (connections s2 ! client)
                         \<lparr>pending_to_be_sent := front2 @ [last2], events := POLLOUT\<rparr>]\<rparr>"
    by (auto simp: send_later_def Let_def split: sum.splits)
  have "\<exists>free1. s1 = s\<lparr>first_free_buffer := free1\<rparr>"
    using pre by (auto simp: free_only_refl split: if_splits sum.splits dest!: take_buffer_Inr)
  then obtain free1 where s1: "s1 = s\<lparr>first_free_buffer := free1\<rparr>" ..
  have q1: "concat (map buffer (front @ [lastb])) = concat (map buffer ?pending)"
  proof (cases "?pending = []")
    case True
    with pre show ?thesis
      by (auto split: sum.splits dest!: take_buffer_Inr)
  next
    case False
    have "concat (map buffer (butlast ?pending)) @ buffer (last ?pending) =
          concat (map buffer (butlast ?pending @ [last ?pending]))"
      by (simp del: append_butlast_last_id)
    also have "\<dots> = concat (map buffer ?pending)"
      using False by simp
    finally have "concat (map buffer (butlast ?pending)) @ buffer (last ?pending) =
          concat (map buffer ?pending)" .
    with pre False show ?thesis
      by (auto split: if_splits sum.splits dest!: take_buffer_Inr)
  qed
  from store_loop_Inr[OF loop] obtain free2 where s2: "s2 = s1\<lparr>first_free_buffer := free2\<rparr>"
    and q2: "concat (map buffer (front2 @ [last2])) = concat (map buffer (front @ [lastb])) @ message"
    by auto
  show ?thesis
    unfolding appended_def
    apply (rule exI[of _ free2], rule exI[of _ "front2 @ [last2]"], rule exI[of _ POLLOUT])
    using s' s1 s2 q1 q2 by (simp add: pending_bytes_def)
qed

lemma appended_refl: "client < length (connections s) \<Longrightarrow> appended client [] s s"
  unfolding appended_def
  by (rule exI[of _ "first_free_buffer s"],
      rule exI[of _ "pending_to_be_sent (connections s ! client)"],
      rule exI[of _ "events (connections s ! client)"])
     (simp add: pending_bytes_def)

lemma appended_trans:
  assumes "appended client b1 s s1" and "appended client b2 s1 s2"
    and "client < length (connections s)"
  shows "appended client (b1 @ b2) s s2"
proof -
  from assms(1) obtain f1 q1 e1 where
    s1: "s1 = s\<lparr>first_free_buffer := f1,
               connections := (connections s)
                 [client := (connections s ! client)
                    \<lparr>pending_to_be_sent := q1, events := e1\<rparr>]\<rparr>"
    and b1: "concat (map buffer q1) = pending_bytes (connections s ! client) @ b1"
    unfolding appended_def by blast
  from assms(2) obtain f2 q2 e2 where
    s2: "s2 = s1\<lparr>first_free_buffer := f2,
               connections := (connections s1)
                 [client := (connections s1 ! client)
                    \<lparr>pending_to_be_sent := q2, events := e2\<rparr>]\<rparr>"
    and b2: "concat (map buffer q2) = pending_bytes (connections s1 ! client) @ b2"
    unfolding appended_def by blast
  show ?thesis
    unfolding appended_def
    apply (rule exI[of _ f2], rule exI[of _ q2], rule exI[of _ e2])
    using s1 s2 b1 b2 assms(3) by (simp add: pending_bytes_def)
qed

lemma appended_frame:
  assumes "appended client bytes s s'" and "client < length (connections s)"
  shows "history s' = history s" and "localtime_r s' = localtime_r s"
    and "clock s' = clock s" and "ticks s' = ticks s" and "closed_fds s' = closed_fds s"
    and "before_history s' = before_history s"
    and "length (connections s') = length (connections s)"
    and "last_received_message (connections s' ! client) =
         last_received_message (connections s ! client)"
    and "pending_bytes (connections s' ! client) =
         pending_bytes (connections s ! client) @ bytes"
  using assms unfolding appended_def by (auto simp: pending_bytes_def)

lemma send_package_appended:
  assumes "send_package client message s = Inr s'" and "client < length (connections s)"
  shows "appended client (line message) s s'"
proof -
  from assms(1) obtain s1 where 1: "send_later client message s = Inr s1"
    and 2: "send_later client CRLF s1 = Inr s'"
    by (auto simp: send_package_def split: sum.splits)
  have a1: "appended client message s s1"
    using 1 assms(2) by (rule send_later_appended)
  then have "length (connections s1) = length (connections s)"
    using assms(2) by (rule appended_frame)
  with 2 assms(2) have "appended client CRLF s1 s'"
    by (simp add: send_later_appended)
  with a1 show ?thesis
    unfolding line_def using assms(2) by (rule appended_trans)
qed

lemma read_message_frame:
  "history s' = history s \<Longrightarrow> before_history s' = before_history s \<Longrightarrow>
   read_message s' i = read_message s i"
  by (simp add: read_message_def)

lemma read_message_nth:
  "0 \<le> i \<Longrightarrow> i < int (length (messages (history s))) \<Longrightarrow>
   read_message s i = messages (history s) ! nat i"
  by (simp add: read_message_def)

lemma new_loop_appended:
  "new_loop client i s = Inr (0, s') \<Longrightarrow> client < length (connections s) \<Longrightarrow>
   i < int (length (messages (history s))) \<Longrightarrow>
   appended client
     (concat (map (\<lambda>m. line (format_message (the (localtime_r s (tv_sec (msg_time m)))) m))
                (rev (take (nat (i + 1)) (messages (history s)))))) s s' \<and>
   list_all (\<lambda>m. localtime_r s (tv_sec (msg_time m)) \<noteq> None)
     (take (nat (i + 1)) (messages (history s)))"
proof (induction client i s rule: new_loop.induct)
  case (1 client i s)
  show ?case
  proof (cases "0 \<le> i")
    case False
    with "1.prems" show ?thesis
      by (simp add: new_loop.simps appended_refl)
  next
    case True
    define m where "m = read_message s i"
    have m: "m = messages (history s) ! nat i"
      unfolding m_def using True "1.prems"(3) by (rule read_message_nth)
    from "1.prems"(1) True obtain pt where pt: "localtime_r s (tv_sec (msg_time m)) = Some pt"
      by (subst (asm) new_loop.simps)
         (auto simp: m_def Let_def close_connection_def split: option.splits)
    define outgoing where "outgoing = format_message pt m"
    from "1.prems"(1) True pt have fits: "\<not> MAX_PACKAGE_LENGTH < length outgoing + 1"
      by (subst (asm) new_loop.simps)
         (auto simp: m_def[symmetric] outgoing_def[symmetric] Let_def split: if_splits)
    from "1.prems"(1) True pt fits obtain s1 where
      sp: "send_package client outgoing s = Inr s1"
      and rec: "new_loop client (i - 1) s1 = Inr (0, s')"
      by (subst (asm) new_loop.simps)
         (auto simp: m_def[symmetric] outgoing_def[symmetric] Let_def split: if_splits sum.splits)
    have a1: "appended client (line outgoing) s s1"
      using sp "1.prems"(2) by (rule send_package_appended)
    note fr = appended_frame[OF a1 "1.prems"(2)]
    have "appended client
       (concat (map (\<lambda>m. line (format_message (the (localtime_r s1 (tv_sec (msg_time m)))) m))
                (rev (take (nat (i - 1 + 1)) (messages (history s1)))))) s1 s' \<and>
       list_all (\<lambda>m. localtime_r s1 (tv_sec (msg_time m)) \<noteq> None)
         (take (nat (i - 1 + 1)) (messages (history s1)))"
      using True m_def pt outgoing_def fits sp rec
      by (rule "1.IH") (use "1.prems" fr in simp_all)
    then have a2: "appended client
       (concat (map (\<lambda>m. line (format_message (the (localtime_r s (tv_sec (msg_time m)))) m))
                (rev (take (nat i) (messages (history s)))))) s1 s'"
      and all: "list_all (\<lambda>m. localtime_r s (tv_sec (msg_time m)) \<noteq> None)
         (take (nat i) (messages (history s)))"
      by (simp_all add: fr)
    have tk: "take (nat (i + 1)) (messages (history s)) =
              take (nat i) (messages (history s)) @ [m]"
      using True "1.prems"(3) m
      by (simp add: nat_add_distrib take_Suc_conv_app_nth)
    from appended_trans[OF a1 a2 "1.prems"(2)] all pt
    show ?thesis
      by (simp add: tk outgoing_def)
  qed
qed

lemma rev_take_dropWhile:
  "rev (take (length (dropWhile P (rev xs))) xs) = dropWhile P (rev xs)"
proof -
  have "rev xs = takeWhile P (rev xs) @ dropWhile P (rev xs)" by simp
  then have "xs = rev (dropWhile P (rev xs)) @ rev (takeWhile P (rev xs))"
    by (metis rev_append rev_rev_ident)
  then have "take (length (dropWhile P (rev xs))) xs = rev (dropWhile P (rev xs))"
    by (metis append_eq_conv_conj length_rev)
  then show ?thesis by simp
qed

lemma scan_count:
  "n \<le> length (messages (history s)) \<Longrightarrow>
   fst (scan s cursor (int n - 1)) + 1 =
   int (length (dropWhile (\<lambda>m. older (msg_time m) cursor)
                  (rev (take n (messages (history s))))))"
proof (induction n)
  case 0
  show ?case by (subst scan.simps) simp
next
  case (Suc n)
  then have n: "n < length (messages (history s))" by simp
  then have rd: "read_message s (int n) = messages (history s) ! n"
    by (simp add: read_message_def)
  have tk: "rev (take (Suc n) (messages (history s))) =
            messages (history s) ! n # rev (take n (messages (history s)))"
    using n by (simp add: take_Suc_conv_app_nth)
  show ?case
  proof (cases "older (msg_time (messages (history s) ! n)) cursor")
    case True
    then have "fst (scan s cursor (int (Suc n) - 1)) = fst (scan s cursor (int n - 1))"
      by (subst scan.simps) (simp add: rd split: prod.splits)
    with Suc True show ?thesis by (simp add: tk)
  next
    case False
    then have "fst (scan s cursor (int (Suc n) - 1)) = int n"
      by (subst scan.simps) (simp add: rd)
    with False n show ?thesis by (simp add: tk)
  qed
qed

lemma sprintf_02d_two_digits:
  assumes "0 \<le> v" and "v < 100"
  shows "sprintf_02d v = two_digits v"
proof (cases "nat v < 10")
  case True
  then show ?thesis using assms
    by (simp add: sprintf_02d_def sprintf_d_def two_digits_def)
next
  case False
  with assms have "nat v div 10 < 10" by simp
  with False assms show ?thesis
    by (simp add: sprintf_02d_def sprintf_d_def two_digits_def)
qed

lemma format_message_spec: "tm_valid t \<Longrightarrow> format_message t m = spec_line t m"
  by (simp add: tm_valid_def format_message_def spec_line_def sprintf_02d_two_digits)

lemma new_entries_dropWhile:
  assumes "hist_length (history s) \<le> length (messages (history s))"
  shows "new_entries client s =
         dropWhile (\<lambda>m. older (msg_time m) (last_received_message (connections s ! client)))
           (rev (live (history s)))"
    and "fst (scan s (last_received_message (connections s ! client))
                (int (hist_length (history s)) - 1)) + 1 = int (length (new_entries client s))"
proof -
  let ?P = "\<lambda>m. older (msg_time m) (last_received_message (connections s ! client))"
  let ?n = "hist_length (history s)"
  let ?ms = "messages (history s)"
  let ?i = "fst (scan s (last_received_message (connections s ! client)) (int ?n - 1))"
  let ?N = "length (dropWhile ?P (rev (take ?n ?ms)))"
  have i: "?i + 1 = int ?N"
    using assms by (rule scan_count)
  have "?N \<le> length (rev (take ?n ?ms))"
    by (rule length_dropWhile_le)
  then have le: "?N \<le> ?n" using assms by simp
  have "rev (take ?N (take ?n ?ms)) = dropWhile ?P (rev (take ?n ?ms))"
    by (rule rev_take_dropWhile)
  with le have "rev (take ?N ?ms) = dropWhile ?P (rev (take ?n ?ms))"
    by (simp add: min_absorb1)
  with i show 1: "new_entries client s = dropWhile ?P (rev (live (history s)))"
    by (simp add: new_entries_def live_def)
  from i 1 show "?i + 1 = int (length (new_entries client s))"
    by (simp add: live_def)
qed

lemma new_loop_rc: "new_loop client i s = Inr (rc, s') \<Longrightarrow> rc = 0 \<or> rc = - 1"
proof (induction client i s rule: new_loop.induct)
  case (1 client i s)
  show ?case
  proof (cases "0 \<le> i")
    case False
    with "1.prems" show ?thesis by (simp add: new_loop.simps)
  next
    case True
    show ?thesis
    proof (cases "localtime_r s (tv_sec (msg_time (read_message s i)))")
      case None
      with True "1.prems" show ?thesis
        by (subst (asm) new_loop.simps) (simp add: close_connection_def)
    next
      case (Some pt)
      from "1.prems" True Some have
        fits: "\<not> MAX_PACKAGE_LENGTH < length (format_message pt (read_message s i)) + 1"
        by (subst (asm) new_loop.simps) (auto simp: Let_def split: if_splits)
      from "1.prems" True Some fits obtain s1 where
        sp: "send_package client (format_message pt (read_message s i)) s = Inr s1"
        and rec: "new_loop client (i - 1) s1 = Inr (rc, s')"
        by (subst (asm) new_loop.simps) (auto simp: Let_def split: if_splits sum.splits)
      from True refl Some refl fits sp rec show ?thesis by (rule "1.IH")
    qed
  qed
qed

lemma process_new_ok:
  assumes ok: "process_new_package client PACKAGE_NEW s = Inr (0, s')"
    and client: "client < length (connections s)"
    and hist: "hist_length (history s) \<le> length (messages (history s))"
  shows "\<exists>s2 now.
      appended client
        (line (sprintf_d (int (length (new_entries client s)))) @
         concat (map (\<lambda>m. line (format_message (the (localtime_r s (tv_sec (msg_time m)))) m))
                   (new_entries client s))) s s2 \<and>
      list_all (\<lambda>m. localtime_r s (tv_sec (msg_time m)) \<noteq> None) (new_entries client s) \<and>
      clock s (ticks s) = Some now \<and>
      s' = s2\<lparr>ticks := ticks s + 1,
              connections := (connections s2)
                [client := (connections s2 ! client)\<lparr>last_received_message := now\<rparr>]\<rparr>"
proof -
  define i where "i = fst (scan s (last_received_message (connections s ! client))
                     (int (hist_length (history s)) - 1))"
  have i: "i + 1 = int (length (new_entries client s))"
    unfolding i_def using hist by (rule new_entries_dropWhile(2))
  have ne: "new_entries client s = rev (take (nat (i + 1)) (messages (history s)))"
    by (simp add: new_entries_def i_def)
  have branch: "\<not> starts_with PACKAGE_NEW PACKAGE_BEGIN_MY_NAME_IS"
    "PACKAGE_NEW \<noteq> PACKAGE_FOLKS" "\<not> starts_with PACKAGE_NEW PACKAGE_BEGIN_SEND"
    by (simp_all add: packages starts_with_def)
  from ok obtain s1 where sp: "send_package client (sprintf_d (i + 1)) s = Inr s1"
    by (auto simp: process_new_package_def branch Let_def i_def split: sum.splits)
  from ok sp obtain rc1 s2 where nl: "new_loop client i s1 = Inr (rc1, s2)"
    by (auto simp: process_new_package_def branch Let_def i_def[symmetric] split: sum.splits)
  from ok sp nl have rc1: "rc1 = 0"
    by (auto simp: process_new_package_def branch Let_def i_def[symmetric]
             split: sum.splits if_splits)
  from ok sp nl rc1 obtain now where now: "clock s2 (ticks s2) = Some now"
    and s': "s' = s2\<lparr>ticks := ticks s2 + 1,
              connections := (connections s2)
                [client := (connections s2 ! client)\<lparr>last_received_message := now\<rparr>]\<rparr>"
    by (auto simp: process_new_package_def branch Let_def i_def[symmetric] get_time_def
             split: sum.splits if_splits option.splits)
  have a1: "appended client (line (sprintf_d (i + 1))) s s1"
    using sp client by (rule send_package_appended)
  note fr1 = appended_frame[OF a1 client]
  have "i < int (length (messages (history s)))"
  proof -
    have "length (new_entries client s) \<le> length (messages (history s))"
      by (simp add: ne)
    with i show ?thesis by simp
  qed
  with nl rc1 client fr1 have
    "appended client
       (concat (map (\<lambda>m. line (format_message (the (localtime_r s1 (tv_sec (msg_time m)))) m))
                  (rev (take (nat (i + 1)) (messages (history s1)))))) s1 s2 \<and>
     list_all (\<lambda>m. localtime_r s1 (tv_sec (msg_time m)) \<noteq> None)
       (take (nat (i + 1)) (messages (history s1)))"
    by (intro new_loop_appended) simp_all
  then have a2: "appended client
       (concat (map (\<lambda>m. line (format_message (the (localtime_r s (tv_sec (msg_time m)))) m))
                  (new_entries client s))) s1 s2"
    and all: "list_all (\<lambda>m. localtime_r s (tv_sec (msg_time m)) \<noteq> None) (new_entries client s)"
    by (simp_all add: fr1 ne)
  have a: "appended client
        (line (sprintf_d (int (length (new_entries client s)))) @
         concat (map (\<lambda>m. line (format_message (the (localtime_r s (tv_sec (msg_time m)))) m))
                   (new_entries client s))) s s2"
    using appended_trans[OF a1 a2 client] i by simp
  note fr = appended_frame[OF a client]
  from a all now s' fr show ?thesis by auto
qed

lemma dropWhile_sorted_filter:
  "sorted_wrt R xs \<Longrightarrow> (\<And>a b. \<not> P a \<Longrightarrow> R a b \<Longrightarrow> \<not> P b) \<Longrightarrow>
   dropWhile P xs = filter (\<lambda>x. \<not> P x) xs"
proof (induction xs)
  case Nil
  show ?case by simp
next
  case (Cons x xs)
  show ?case
  proof (cases "P x")
    case True
    with Cons show ?thesis by simp
  next
    case False
    with Cons.prems have "\<forall>y\<in>set xs. \<not> P y" by auto
    then have "filter (\<lambda>x. \<not> P x) xs = xs" by simp
    with False show ?thesis by simp
  qed
qed

lemma not_older_trans:
  "\<not> older a c \<Longrightarrow> \<not> older b a \<Longrightarrow> \<not> older b c"
  by (auto simp: older_def)

lemma process_new_rc:
  assumes "process_new_package client PACKAGE_NEW s = Inr (rc, s')"
    and "fst (scan s (last_received_message (connections s ! client))
                (int (hist_length (history s)) - 1)) = - 1"
  shows "rc = 0"
proof -
  have branch: "\<not> starts_with PACKAGE_NEW PACKAGE_BEGIN_MY_NAME_IS"
    "PACKAGE_NEW \<noteq> PACKAGE_FOLKS" "\<not> starts_with PACKAGE_NEW PACKAGE_BEGIN_SEND"
    by (simp_all add: packages starts_with_def)
  have "new_loop client (- 1) t = Inr (0, t)" for t
    by (simp add: new_loop.simps)
  with assms show ?thesis
    by (auto simp: process_new_package_def branch Let_def split: sum.splits if_splits)
qed

lemma example_localtime_valid: "example_localtime t = Some pt \<Longrightarrow> tm_valid pt"
  by (auto simp: example_localtime_def tm_valid_def)


text \<open>
  When does the \<^verbatim>\<open>new\<close> branch return 0? \<^verbatim>\<open>send_later\<close> uses up exactly as much room as
  the message has bytes, and takes a block from the pool only when the last block of the
  chain is full; so the branch returns 0 whenever the clock can be read, every selected
  entry \<open>formats\<close>, and the reply is no longer than the room of the client.
\<close>

lemma room_step1:
  fixes F1 G M u1 R :: nat
  assumes "R \<le> G" and "F1 + (M - u1) = G" and "u1 < M"
  shows "R - min (M - u1) R \<le> F1 + (M - (u1 + min (M - u1) R))"
  using assms by (cases "M - u1 \<le> R") (simp_all add: min_def)

lemma room_step2:
  fixes Z F1 G M u1 L stored p :: nat
  assumes "Z + (L - (stored + p)) = F1 + (M - (u1 + p))" and "F1 + (M - u1) = G"
    and "stored + p \<le> L" and "p \<le> M - u1"
  shows "Z + (L - stored) = G"
  using assms by simp

lemma store_loop_room:
  "stored \<le> length message \<Longrightarrow>
   (stored = 0 \<and> stored < length message \<longrightarrow> length (buffer lastb) < MAX_PACKAGE_LENGTH) \<Longrightarrow>
   (stored \<noteq> 0 \<and> stored < length message \<longrightarrow> length (buffer lastb) = MAX_PACKAGE_LENGTH) \<Longrightarrow>
   length (buffer lastb) \<le> MAX_PACKAGE_LENGTH \<Longrightarrow>
   length message - stored \<le>
     length (first_free_buffer s) * MAX_PACKAGE_LENGTH +
     (MAX_PACKAGE_LENGTH - length (buffer lastb)) \<Longrightarrow>
   \<exists>s' front' lastb'.
     store_loop stored message s front lastb = Inr (s', front', lastb') \<and>
     length (buffer lastb') \<le> MAX_PACKAGE_LENGTH \<and>
     length (first_free_buffer s') * MAX_PACKAGE_LENGTH +
       (MAX_PACKAGE_LENGTH - length (buffer lastb')) + (length message - stored) =
     length (first_free_buffer s) * MAX_PACKAGE_LENGTH +
       (MAX_PACKAGE_LENGTH - length (buffer lastb))"
proof (induction stored message s front lastb rule: store_loop.induct)
  case (1 stored message s front lastb)
  show ?case
  proof (cases "stored < length message")
    case False
    with "1.prems" show ?thesis by (simp add: store_loop.simps)
  next
    case more: True
    let ?pre = "if stored \<noteq> 0
          then case take_buffer s of Inl x \<Rightarrow> Inl x
               | Inr (b, s1) \<Rightarrow> Inr (s1, front @ [lastb], b)
          else Inr (s, front, lastb)"
    have "\<exists>s1 front1 last1. ?pre = Inr (s1, front1, last1) \<and>
            length (buffer last1) < MAX_PACKAGE_LENGTH \<and>
            length (first_free_buffer s1) * MAX_PACKAGE_LENGTH +
              (MAX_PACKAGE_LENGTH - length (buffer last1)) =
            length (first_free_buffer s) * MAX_PACKAGE_LENGTH +
              (MAX_PACKAGE_LENGTH - length (buffer lastb))"
    proof (cases "stored = 0")
      case True
      with more "1.prems" show ?thesis by simp
    next
      case False
      with more "1.prems" have full: "length (buffer lastb) = MAX_PACKAGE_LENGTH" by simp
      with more "1.prems"(5) have "first_free_buffer s \<noteq> []" by auto
      then obtain b rest where "first_free_buffer s = b # rest"
        by (cases "first_free_buffer s") auto
      with False full show ?thesis
        by (simp add: take_buffer_def limits)
    qed
    then obtain s1 front1 last1 where pre: "?pre = Inr (s1, front1, last1)"
      and lt: "length (buffer last1) < MAX_PACKAGE_LENGTH"
      and same: "length (first_free_buffer s1) * MAX_PACKAGE_LENGTH +
              (MAX_PACKAGE_LENGTH - length (buffer last1)) =
            length (first_free_buffer s) * MAX_PACKAGE_LENGTH +
              (MAX_PACKAGE_LENGTH - length (buffer lastb))"
      by blast
    define part_size where
      "part_size = min (MAX_PACKAGE_LENGTH - length (buffer last1)) (length message - stored)"
    from lt more have ps: "part_size \<noteq> 0"
      by (simp add: part_size_def)
    let ?last = "last1\<lparr>buffer := buffer last1 @ take part_size (drop stored message)\<rparr>"
    have unfold: "store_loop stored message s front lastb =
                  store_loop (stored + part_size) message s1 front1 ?last"
      using more pre lt
      by (subst store_loop.simps) (auto simp: part_size_def Let_def)
    have len: "length (buffer ?last) = length (buffer last1) + part_size"
      using more by (simp add: part_size_def)
    have p1: "stored + part_size \<le> length message"
      using more by (simp add: part_size_def)
    have p2: "stored + part_size = 0 \<and> stored + part_size < length message \<longrightarrow>
              length (buffer ?last) < MAX_PACKAGE_LENGTH"
      using ps by simp
    have p3: "stored + part_size \<noteq> 0 \<and> stored + part_size < length message \<longrightarrow>
              length (buffer ?last) = MAX_PACKAGE_LENGTH"
      using lt len by (auto simp: part_size_def)
    have p4: "length (buffer ?last) \<le> MAX_PACKAGE_LENGTH"
      using lt len by (auto simp: part_size_def)
    have "length message - stored - part_size \<le>
        length (first_free_buffer s1) * MAX_PACKAGE_LENGTH +
        (MAX_PACKAGE_LENGTH - (length (buffer last1) + part_size))"
      unfolding part_size_def using "1.prems"(5) same lt by (rule room_step1)
    then have p5: "length message - (stored + part_size) \<le>
        length (first_free_buffer s1) * MAX_PACKAGE_LENGTH +
        (MAX_PACKAGE_LENGTH - length (buffer ?last))"
      by (simp only: len diff_diff_left)
    from "1.IH"[OF more pre refl refl part_size_def ps p1 p2 p3 p4 p5]
    obtain s' front' lastb' where
      r: "store_loop (stored + part_size) message s1 front1 ?last = Inr (s', front', lastb')"
      and l: "length (buffer lastb') \<le> MAX_PACKAGE_LENGTH"
      and e: "length (first_free_buffer s') * MAX_PACKAGE_LENGTH +
          (MAX_PACKAGE_LENGTH - length (buffer lastb')) + (length message - (stored + part_size)) =
          length (first_free_buffer s1) * MAX_PACKAGE_LENGTH +
          (MAX_PACKAGE_LENGTH - length (buffer ?last))"
      by blast
    have "length (first_free_buffer s') * MAX_PACKAGE_LENGTH +
          (MAX_PACKAGE_LENGTH - length (buffer lastb')) + (length message - stored) =
          length (first_free_buffer s) * MAX_PACKAGE_LENGTH +
          (MAX_PACKAGE_LENGTH - length (buffer lastb))"
    proof (rule room_step2)
      show "length (first_free_buffer s') * MAX_PACKAGE_LENGTH +
          (MAX_PACKAGE_LENGTH - length (buffer lastb')) + (length message - (stored + part_size)) =
          length (first_free_buffer s1) * MAX_PACKAGE_LENGTH +
          (MAX_PACKAGE_LENGTH - (length (buffer last1) + part_size))"
        using e len by simp
      show "length (first_free_buffer s1) * MAX_PACKAGE_LENGTH +
              (MAX_PACKAGE_LENGTH - length (buffer last1)) =
            length (first_free_buffer s) * MAX_PACKAGE_LENGTH +
              (MAX_PACKAGE_LENGTH - length (buffer lastb))"
        by (rule same)
      show "stored + part_size \<le> length message" by (rule p1)
      show "part_size \<le> MAX_PACKAGE_LENGTH - length (buffer last1)"
        by (simp add: part_size_def)
    qed
    with r l unfold show ?thesis by simp
  qed
qed

lemma formats_frame: "localtime_r s' = localtime_r s \<Longrightarrow> formats s' = formats s"
  by (rule ext) (simp add: formats_def)

lemma reply_length_frame:
  "localtime_r s' = localtime_r s \<Longrightarrow> reply_length s' = reply_length s"
  by (rule ext) (simp add: reply_length_def)

lemma last_room_snoc: "last_room (xs @ [b]) = MAX_PACKAGE_LENGTH - length (buffer b)"
  by (cases xs) (simp_all add: last_room_def)

lemma send_later_room:
  assumes client: "client < length (connections s)"
    and ok: "queue_ok client s"
    and fits: "length message \<le> room client s"
    and pos: "0 < room client s"
  shows "\<exists>s'. send_later client message s = Inr s' \<and>
              room client s' + length message = room client s \<and> queue_ok client s'"
proof -
  let ?pending = "pending_to_be_sent (connections s ! client)"
  let ?pre = "if ?pending = []
            then (case take_buffer s of
                    Inl e \<Rightarrow> Inl e
                  | Inr (b, s1) \<Rightarrow> Inr (s1, [], b))
            else if length (buffer (last ?pending)) = MAX_PACKAGE_LENGTH
            then (case take_buffer s of
                    Inl e \<Rightarrow> Inl e
                  | Inr (b, s1) \<Rightarrow> Inr (s1, ?pending, b))
            else Inr (s, butlast ?pending, last ?pending)"
  have "\<exists>s1 front lastb. ?pre = Inr (s1, front, lastb) \<and>
          connections s1 = connections s \<and>
          length (buffer lastb) < MAX_PACKAGE_LENGTH \<and>
          length (first_free_buffer s1) * MAX_PACKAGE_LENGTH +
            (MAX_PACKAGE_LENGTH - length (buffer lastb)) = room client s"
  proof (cases "?pending = [] \<or> length (buffer (last ?pending)) = MAX_PACKAGE_LENGTH")
    case True
    then have r: "room client s = length (first_free_buffer s) * MAX_PACKAGE_LENGTH"
      by (cases ?pending) (auto simp: room_def last_room_def free_blocks_def)
    with pos obtain b rest where f: "first_free_buffer s = b # rest"
      by (cases "first_free_buffer s") auto
    with True r show ?thesis
      by (auto simp: take_buffer_def limits)
  next
    case False
    then obtain b bs where p: "?pending = b # bs" by (cases ?pending) auto
    with False ok have "length (buffer (last ?pending)) < MAX_PACKAGE_LENGTH"
      by (simp add: queue_ok_def)
    with False p show ?thesis
      by (simp add: room_def last_room_def free_blocks_def)
  qed
  then obtain s1 front lastb where pre: "?pre = Inr (s1, front, lastb)"
    and c1: "connections s1 = connections s"
    and lt: "length (buffer lastb) < MAX_PACKAGE_LENGTH"
    and r1: "length (first_free_buffer s1) * MAX_PACKAGE_LENGTH +
            (MAX_PACKAGE_LENGTH - length (buffer lastb)) = room client s"
    by blast
  have "\<exists>s2 front2 last2.
     store_loop 0 message s1 front lastb = Inr (s2, front2, last2) \<and>
     length (buffer last2) \<le> MAX_PACKAGE_LENGTH \<and>
     length (first_free_buffer s2) * MAX_PACKAGE_LENGTH +
       (MAX_PACKAGE_LENGTH - length (buffer last2)) + (length message - 0) =
     length (first_free_buffer s1) * MAX_PACKAGE_LENGTH +
       (MAX_PACKAGE_LENGTH - length (buffer lastb))"
    using lt fits r1 by (intro store_loop_room) simp_all
  then obtain s2 front2 last2 where
    loop: "store_loop 0 message s1 front lastb = Inr (s2, front2, last2)"
    and l2: "length (buffer last2) \<le> MAX_PACKAGE_LENGTH"
    and r2: "length (first_free_buffer s2) * MAX_PACKAGE_LENGTH +
       (MAX_PACKAGE_LENGTH - length (buffer last2)) + length message = room client s"
    using r1 by auto
  from store_loop_Inr[OF loop] c1 have c2: "connections s2 = connections s"
    by auto
  define s' where "s' = s2\<lparr>connections := (connections s2)
                      [client := (connections s2 ! client)
                         \<lparr>pending_to_be_sent := front2 @ [last2], events := POLLOUT\<rparr>]\<rparr>"
  have res: "send_later client message s = Inr s'"
    using pre loop by (simp add: send_later_def Let_def s'_def)
  have q: "pending_to_be_sent (connections s' ! client) = front2 @ [last2]"
    and f: "first_free_buffer s' = first_free_buffer s2"
    using client c2 by (simp_all add: s'_def)
  have "room client s' + length message = room client s"
    using r2 by (simp add: room_def free_blocks_def q f last_room_snoc)
  moreover have "queue_ok client s'"
    using l2 by (cases front2) (simp_all add: queue_ok_def q)
  ultimately show ?thesis using res by blast
qed

lemma send_package_room:
  assumes client: "client < length (connections s)"
    and ok: "queue_ok client s"
    and fits: "length (line message) \<le> room client s"
  shows "\<exists>s'. send_package client message s = Inr s' \<and>
              room client s' + length (line message) = room client s \<and> queue_ok client s'"
proof -
  from fits have "length message \<le> room client s" "0 < room client s"
    by (simp_all add: line_def CRLF_def)
  with client ok obtain s1 where 1: "send_later client message s = Inr s1"
    and r1: "room client s1 + length message = room client s" and ok1: "queue_ok client s1"
    using send_later_room by blast
  from send_later_appended[OF 1 client] client
  have c1: "client < length (connections s1)"
    by (simp add: appended_frame(7))
  from r1 fits have "length CRLF \<le> room client s1" "0 < room client s1"
    by (simp_all add: line_def CRLF_def)
  with c1 ok1 obtain s' where 2: "send_later client CRLF s1 = Inr s'"
    and r2: "room client s' + length CRLF = room client s1" and ok2: "queue_ok client s'"
    using send_later_room by blast
  from 1 2 have "send_package client message s = Inr s'"
    by (simp add: send_package_def)
  moreover from r1 r2 have "room client s' + length (line message) = room client s"
    by (simp add: line_def)
  ultimately show ?thesis using ok2 by blast
qed

lemma new_loop_completes:
  "client < length (connections s) \<Longrightarrow> queue_ok client s \<Longrightarrow>
   i < int (length (messages (history s))) \<Longrightarrow>
   list_all (formats s) (take (nat (i + 1)) (messages (history s))) \<Longrightarrow>
   reply_length s (take (nat (i + 1)) (messages (history s))) \<le> room client s \<Longrightarrow>
   \<exists>s'. new_loop client i s = Inr (0, s')"
proof (induction client i s rule: new_loop.induct)
  case (1 client i s)
  show ?case
  proof (cases "0 \<le> i")
    case False
    then show ?thesis by (simp add: new_loop.simps)
  next
    case True
    define m where "m = read_message s i"
    have m: "m = messages (history s) ! nat i"
      unfolding m_def using True "1.prems"(3) by (rule read_message_nth)
    have tk: "take (nat (i + 1)) (messages (history s)) =
              take (nat i) (messages (history s)) @ [m]"
      using True "1.prems"(3) m
      by (simp add: nat_add_distrib take_Suc_conv_app_nth)
    from "1.prems"(4) have "formats s m" by (simp add: tk)
    then obtain pt where pt: "localtime_r s (tv_sec (msg_time m)) = Some pt"
      and short: "length (format_message pt m) < MAX_PACKAGE_LENGTH"
      by (auto simp: formats_def split: option.splits)
    define outgoing where "outgoing = format_message pt m"
    from short have fits: "\<not> MAX_PACKAGE_LENGTH < length outgoing + 1"
      by (simp add: outgoing_def)
    from "1.prems"(5) pt have "length (line outgoing) \<le> room client s"
      by (simp add: tk reply_length_def outgoing_def)
    with "1.prems"(1,2) obtain s1 where sp: "send_package client outgoing s = Inr s1"
      and r1: "room client s1 + length (line outgoing) = room client s"
      and ok1: "queue_ok client s1"
      using send_package_room by blast
    note fr = appended_frame[OF send_package_appended[OF sp "1.prems"(1)] "1.prems"(1)]
    have "\<exists>s'. new_loop client (i - 1) s1 = Inr (0, s')"
      using True m_def pt outgoing_def fits sp
    proof (rule "1.IH")
      show "client < length (connections s1)" using "1.prems"(1) fr by simp
      show "queue_ok client s1" by (rule ok1)
      show "i - 1 < int (length (messages (history s1)))" using "1.prems"(3) fr by simp
      show "list_all (formats s1) (take (nat (i - 1 + 1)) (messages (history s1)))"
        using "1.prems"(4) by (simp add: tk fr formats_frame[OF fr(2)])
      show "reply_length s1 (take (nat (i - 1 + 1)) (messages (history s1))) \<le> room client s1"
        using "1.prems"(5) r1 pt
        by (simp add: tk fr reply_length_frame[OF fr(2)]) (simp add: reply_length_def outgoing_def)
    qed
    then obtain s' where "new_loop client (i - 1) s1 = Inr (0, s')" ..
    with True pt fits sp have "new_loop client i s = Inr (0, s')"
      by (subst new_loop.simps) (simp add: m_def[symmetric] outgoing_def[symmetric] Let_def)
    then show ?thesis ..
  qed
qed

lemma process_new_completes:
  assumes client: "client < length (connections s)"
    and hist: "hist_length (history s) \<le> length (messages (history s))"
    and ok: "queue_ok client s"
    and clk: "clock s (ticks s) = Some now"
    and fmt: "list_all (formats s) (new_entries client s)"
    and fits: "length (line (sprintf_d (int (length (new_entries client s))))) +
               reply_length s (new_entries client s) \<le> room client s"
  shows "\<exists>s'. process_new_package client PACKAGE_NEW s = Inr (0, s')"
proof -
  define i where "i = fst (scan s (last_received_message (connections s ! client))
                     (int (hist_length (history s)) - 1))"
  have i: "i + 1 = int (length (new_entries client s))"
    unfolding i_def using hist by (rule new_entries_dropWhile(2))
  have ne: "new_entries client s = rev (take (nat (i + 1)) (messages (history s)))"
    by (simp add: new_entries_def i_def)
  have branch: "\<not> starts_with PACKAGE_NEW PACKAGE_BEGIN_MY_NAME_IS"
    "PACKAGE_NEW \<noteq> PACKAGE_FOLKS" "\<not> starts_with PACKAGE_NEW PACKAGE_BEGIN_SEND"
    by (simp_all add: packages starts_with_def)
  from fits i have "length (line (sprintf_d (i + 1))) \<le> room client s" by simp
  with client ok obtain s1 where sp: "send_package client (sprintf_d (i + 1)) s = Inr s1"
    and r1: "room client s1 + length (line (sprintf_d (i + 1))) = room client s"
    and ok1: "queue_ok client s1"
    using send_package_room by blast
  note fr1 = appended_frame[OF send_package_appended[OF sp client] client]
  have lt: "i < int (length (messages (history s)))"
  proof -
    have "length (new_entries client s) \<le> length (messages (history s))"
      by (simp add: ne)
    with i show ?thesis by simp
  qed
  have rl: "reply_length s (rev xs) = reply_length s xs" for xs
    by (simp add: reply_length_def rev_map[symmetric] sum_list_rev)
  have "\<exists>s2. new_loop client i s1 = Inr (0, s2)"
  proof (rule new_loop_completes)
    show "client < length (connections s1)" using client fr1 by simp
    show "queue_ok client s1" by (rule ok1)
    show "i < int (length (messages (history s1)))" using lt fr1 by simp
    show "list_all (formats s1) (take (nat (i + 1)) (messages (history s1)))"
      using fmt unfolding ne by (simp add: fr1(1) formats_frame[OF fr1(2)] list_all_iff)
    show "reply_length s1 (take (nat (i + 1)) (messages (history s1))) \<le> room client s1"
    proof -
      have e1: "reply_length s (new_entries client s) =
                reply_length s (take (nat (i + 1)) (messages (history s)))"
        unfolding ne by (rule rl)
      have e2: "length (line (sprintf_d (int (length (new_entries client s))))) =
                length (line (sprintf_d (i + 1)))"
        using i by simp
      from fits r1 have "reply_length s (take (nat (i + 1)) (messages (history s)))
                         \<le> room client s1"
        unfolding e1 e2 by linarith
      then show ?thesis
        by (simp add: fr1(1) reply_length_frame[OF fr1(2)])
    qed
  qed
  then obtain s2 where nl: "new_loop client i s1 = Inr (0, s2)" ..
  have c1: "client < length (connections s1)" using client fr1 by simp
  have l1: "i < int (length (messages (history s1)))" using lt fr1 by simp
  from new_loop_appended[OF nl c1 l1] have "\<exists>bytes. appended client bytes s1 s2" by blast
  then obtain bytes where a2: "appended client bytes s1 s2" ..
  note fr2 = appended_frame[OF a2 c1]
  from clk fr1 fr2 have "get_time s2 = Inr (now, s2\<lparr>ticks := ticks s2 + 1\<rparr>)"
    by (simp add: get_time_def)
  with sp nl show ?thesis
    by (simp add: process_new_package_def branch Let_def i_def[symmetric])
qed

text \<open>
  The branches \<^verbatim>\<open>my name is\<close> and \<^verbatim>\<open>send\<close> at their limits, and an append to a history
  that is not full.
\<close>

lemma my_name_is_branch:
  "starts_with (PACKAGE_BEGIN_MY_NAME_IS @ name) PACKAGE_BEGIN_MY_NAME_IS"
  by (simp add: starts_with_def)

lemma send_branch:
  "\<not> starts_with (PACKAGE_BEGIN_SEND @ message) PACKAGE_BEGIN_MY_NAME_IS"
  "PACKAGE_BEGIN_SEND @ message \<noteq> PACKAGE_FOLKS"
  "starts_with (PACKAGE_BEGIN_SEND @ message) PACKAGE_BEGIN_SEND"
  by (simp_all add: starts_with_def packages)

lemma nick_of_21_closes:
  assumes "MAX_NICK_LENGTH < length name"
  shows "process_new_package client (PACKAGE_BEGIN_MY_NAME_IS @ name) s =
           Inr (- 1, s\<lparr>closed_fds := fd (connections s ! client) # closed_fds s\<rparr>)"
  using assms by (simp add: process_new_package_def my_name_is_branch close_connection_def)

lemma nick_of_20_accepted:
  assumes "length name \<le> MAX_NICK_LENGTH"
    and "client < length (connections s)"
    and "process_new_package client (PACKAGE_BEGIN_MY_NAME_IS @ name) s = Inr (rc, s')"
  shows "rc = 0 \<and> nick (connections s' ! client) = name \<and>
         closed_fds s' = closed_fds s \<and>
         pending_bytes (connections s' ! client) =
           pending_bytes (connections s ! client) @ line PACKAGE_OK"
proof -
  let ?s = "s\<lparr>connections := (connections s)[client := (connections s ! client)\<lparr>nick := name\<rparr>]\<rparr>"
  from assms(1,3) have sp: "send_package client PACKAGE_OK ?s = Inr s'" and rc: "rc = 0"
    by (auto simp: process_new_package_def my_name_is_branch Let_def split: sum.splits)
  have c: "client < length (connections ?s)" using assms(2) by simp
  have a: "appended client (line PACKAGE_OK) ?s s'"
    using sp c by (rule send_package_appended)
  then have "nick (connections s' ! client) = name"
    using assms(2) unfolding appended_def by auto
  moreover from appended_frame(5,9)[OF a c] assms(2)
  have "closed_fds s' = closed_fds s"
    "pending_bytes (connections s' ! client) =
       pending_bytes (connections s ! client) @ line PACKAGE_OK"
    by (simp_all add: pending_bytes_def)
  ultimately show ?thesis using rc by simp
qed

lemma message_of_141_returns:
  assumes "MAX_MESSAGE_LENGTH < length message"
  shows "process_new_package client (PACKAGE_BEGIN_SEND @ message) s = Inr (- 1, s)"
  using assms by (simp add: process_new_package_def send_branch)

lemma add_to_history_live:
  assumes "add_to_history name message s = Inr s'"
    and "hist_length (history s) \<le> length (messages (history s))"
    and "length (messages (history s)) = MAX_HISTORY_LENGTH"
  shows "\<exists>now. clock s (ticks s) = Some now \<and>
           live (history s') =
             \<lparr>msg_nick = name, msg_data = message, msg_time = now\<rparr> # live (history s) \<and>
           hist_length (history s') = hist_length (history s) + 1 \<and>
           hist_length (history s') \<le> MAX_HISTORY_LENGTH \<and>
           length (messages (history s')) = MAX_HISTORY_LENGTH \<and>
           length name \<le> MAX_NICK_LENGTH \<and> length message \<le> MAX_MESSAGE_LENGTH \<and>
           connections s' = connections s \<and> first_free_buffer s' = first_free_buffer s \<and>
           closed_fds s' = closed_fds s"
proof -
  from assms(1) obtain now where now: "clock s (ticks s) = Some now"
    by (auto simp: add_to_history_def get_time_def split: option.splits)
  let ?n = "hist_length (history s)" and ?m = "messages (history s)"
  from assms(1) now have n: "?n < MAX_HISTORY_LENGTH"
    and nm: "length name \<le> MAX_NICK_LENGTH" and ms: "length message \<le> MAX_MESSAGE_LENGTH"
    by (auto simp: add_to_history_def get_time_def Let_def split: if_splits)
  from assms(1) now n nm ms have s': "s' = s\<lparr>ticks := ticks s + 1, history :=
                  \<lparr>messages = (take 1 ?m @ take ?n ?m @ drop (1 + ?n) ?m)
                       [0 := \<lparr>msg_nick = name, msg_data = message, msg_time = now\<rparr>],
                   hist_length = ?n + 1\<rparr>\<rparr>"
    by (auto simp: add_to_history_def get_time_def Let_def split: if_splits)
  from assms(3) n obtain x xs where m: "?m = x # xs"
    by (cases ?m) (auto simp: limits)
  have "(take 1 ?m @ take ?n ?m @ drop (1 + ?n) ?m)
          [0 := \<lparr>msg_nick = name, msg_data = message, msg_time = now\<rparr>] =
        \<lparr>msg_nick = name, msg_data = message, msg_time = now\<rparr> # take ?n ?m @ drop (1 + ?n) ?m"
    by (simp add: m)
  moreover have "length (take ?n ?m) = ?n" using assms(2) by simp
  ultimately show ?thesis
    using now n nm ms assms(2,3) by (simp add: s' live_def)
qed

lemma message_of_140_accepted:
  assumes "length message \<le> MAX_MESSAGE_LENGTH"
    and "client < length (connections s)"
    and "hist_length (history s) \<le> length (messages (history s))"
    and "length (messages (history s)) = MAX_HISTORY_LENGTH"
    and "process_new_package client (PACKAGE_BEGIN_SEND @ message) s = Inr (rc, s')"
  shows "rc = 0 \<and>
         (\<exists>now. clock s (ticks s) = Some now \<and>
            live (history s') =
              \<lparr>msg_nick = nick (connections s ! client), msg_data = message, msg_time = now\<rparr> #
              live (history s)) \<and>
         closed_fds s' = closed_fds s \<and>
         pending_bytes (connections s' ! client) =
           pending_bytes (connections s ! client) @ line PACKAGE_OK"
proof -
  from assms(1,5) obtain s1 where
    add: "add_to_history (nick (connections s ! client)) message s = Inr s1"
    and sp: "send_package client PACKAGE_OK s1 = Inr s'" and rc: "rc = 0"
    by (auto simp: process_new_package_def send_branch Let_def split: sum.splits)
  from add_to_history_live[OF add assms(3,4)] obtain now where
    now: "clock s (ticks s) = Some now"
    and lv: "live (history s1) =
       \<lparr>msg_nick = nick (connections s ! client), msg_data = message, msg_time = now\<rparr> #
       live (history s)"
    and c1: "connections s1 = connections s" and f1: "closed_fds s1 = closed_fds s"
    by blast
  have c: "client < length (connections s1)" using assms(2) c1 by simp
  note fr = appended_frame[OF send_package_appended[OF sp c] c]
  from fr lv c1 f1 now rc show ?thesis by auto
qed

section \<open>The reply to \<^verbatim>\<open>new\<close>\<close>

text \<open>
  Claim C2 (the reply to \<^verbatim>\<open>new\<close>), as the code has it. When \<^verbatim>\<open>process_new_package\<close> returns
  0 for the package \<^verbatim>\<open>new\<close>, it has appended to the bytes of the client: a line with the
  decimal count \<open>N\<close>, then \<open>N\<close> lines, one per entry, each exactly
  \<^verbatim>\<open>[HH:MM:SS] <nick>: <message>\<close> with two digits per field of the local time. The entries
  are what is left of the history, read from its oldest entry to its newest, after the
  leading entries older than the cursor are dropped: the lines come oldest first. (The
  conversion to local time has succeeded for each of them; its fields are taken to be in
  the ranges of a \<^verbatim>\<open>struct tm\<close>.)
\<close>

theorem new_reply_oldest_first:
  assumes "process_new_package client PACKAGE_NEW s = Inr (0, s')"
    and "client < length (connections s)"
    and "hist_length (history s) \<le> length (messages (history s))"
    and "\<And>t pt. localtime_r s t = Some pt \<Longrightarrow> tm_valid pt"
  shows "let entries =
           dropWhile (\<lambda>m. older (msg_time m) (last_received_message (connections s ! client)))
             (rev (live (history s)))
         in list_all (\<lambda>m. localtime_r s (tv_sec (msg_time m)) \<noteq> None) entries \<and>
            pending_bytes (connections s' ! client) =
              pending_bytes (connections s ! client) @
              line (sprintf_d (int (length entries))) @
              concat (map (\<lambda>m. line (spec_line (the (localtime_r s (tv_sec (msg_time m)))) m))
                        entries)"
proof -
  let ?fmt = "\<lambda>m. line (format_message (the (localtime_r s (tv_sec (msg_time m)))) m)"
  let ?spec = "\<lambda>m. line (spec_line (the (localtime_r s (tv_sec (msg_time m)))) m)"
  from process_new_ok[OF assms(1-3)] obtain s2 now where
    app: "appended client
            (line (sprintf_d (int (length (new_entries client s)))) @
             concat (map ?fmt (new_entries client s))) s s2"
    and all: "list_all (\<lambda>m. localtime_r s (tv_sec (msg_time m)) \<noteq> None) (new_entries client s)"
    and s': "s' = s2\<lparr>ticks := ticks s + 1,
              connections := (connections s2)
                [client := (connections s2 ! client)\<lparr>last_received_message := now\<rparr>]\<rparr>"
    by blast
  note fr = appended_frame[OF app assms(2)]
  have "pending_bytes (connections s' ! client) = pending_bytes (connections s2 ! client)"
    using s' fr(7) assms(2) by (simp add: pending_bytes_def)
  with fr(9) have bytes: "pending_bytes (connections s' ! client) =
      pending_bytes (connections s ! client) @
      line (sprintf_d (int (length (new_entries client s)))) @
      concat (map ?fmt (new_entries client s))"
    by simp
  have "?fmt m = ?spec m" if "m \<in> set (new_entries client s)" for m
  proof -
    from all that obtain pt where "localtime_r s (tv_sec (msg_time m)) = Some pt"
      by (auto simp: list_all_iff)
    with assms(4) show ?thesis
      by (simp add: format_message_spec)
  qed
  then have "map ?fmt (new_entries client s) = map ?spec (new_entries client s)"
    by simp
  with bytes all show ?thesis
    by (simp add: new_entries_dropWhile(1)[OF assms(3), symmetric])
qed

text \<open>The hypotheses of C2 hold in the state \<^const>\<open>two_sent\<close>, for client 1.\<close>

theorem new_reply_oldest_first_witness:
  "map_sum id (\<lambda>(rc, s'). (rc, pending_bytes (connections s' ! 1)))
     (process_new_package 1 PACKAGE_NEW two_sent)
   = Inr (0, line ''2'' @ line ''[00:01:41] bob: hi'' @ line ''[00:01:42] bob: ho'')"
proof -
  have "map_sum id fst (process_new_package 1 PACKAGE_NEW two_sent) = Inr 0"
    by code_simp
  then obtain s' where ok: "process_new_package 1 PACKAGE_NEW two_sent = Inr (0, s')"
    by (cases "process_new_package 1 PACKAGE_NEW two_sent") auto
  have client: "1 < length (connections two_sent)"
    by code_simp
  have hist: "hist_length (history two_sent) \<le> length (messages (history two_sent))"
    by code_simp
  have tz: "tm_valid pt" if "localtime_r two_sent t = Some pt" for t pt
    using that
    by (simp add: two_sent_def listening_def prepare_server_def example_localtime_valid)
  have "(let entries =
           dropWhile (\<lambda>m. older (msg_time m) (last_received_message (connections two_sent ! 1)))
             (rev (live (history two_sent)))
         in pending_bytes (connections two_sent ! 1) @
              line (sprintf_d (int (length entries))) @
              concat (map (\<lambda>m. line (spec_line (the (localtime_r two_sent (tv_sec (msg_time m)))) m))
                        entries))
        = line ''2'' @ line ''[00:01:41] bob: hi'' @ line ''[00:01:42] bob: ho''"
    by code_simp
  with new_reply_oldest_first[OF ok client hist tz]
  have "pending_bytes (connections s' ! 1) =
        line ''2'' @ line ''[00:01:41] bob: hi'' @ line ''[00:01:42] bob: ho''"
    by (simp add: Let_def)
  with ok show ?thesis by simp
qed

text \<open>
  Claim C2 as stated has the lines newest first. A client sends \<^verbatim>\<open>send hi\<close>, then
  \<^verbatim>\<open>send ho\<close>, then \<^verbatim>\<open>new\<close>: the reply has \<^verbatim>\<open>hi\<close>, the older entry, in front of \<^verbatim>\<open>ho\<close>.
\<close>

theorem new_reply_newest_first_counterexample:
  "map_sum id (\<lambda>s. pending_bytes (connections s ! 1))
     (run [[arrives 4],
           [quiet, readable (line ''send hi'' @ line ''send ho'')],
           [quiet, writable (\<lambda>k. Sent 8)],
           [quiet, readable (line ''new'')]] listening)
   = Inr (line ''2'' @ line ''[00:01:41] anonym: hi'' @ line ''[00:01:42] anonym: ho'') \<and>
   map_sum id (\<lambda>s. pending_bytes (connections s ! 1))
     (run [[arrives 4],
           [quiet, readable (line ''send hi'' @ line ''send ho'')],
           [quiet, writable (\<lambda>k. Sent 8)],
           [quiet, readable (line ''new'')]] listening)
   \<noteq> Inr (line ''2'' @ line ''[00:01:42] anonym: ho'' @ line ''[00:01:41] anonym: hi'')"
  by code_simp

text \<open>
  Claim C3 (the entries selected, the cursor), as the code has it. In a history whose
  timestamps do not increase from an entry to the next (older) one, \<^verbatim>\<open>new\<close> selects exactly
  the entries that are not older than the cursor, those with the timestamp of the cursor
  included, in the order oldest first; and when it returns 0 the cursor of the client is
  the reading of the clock that the branch takes.
\<close>

theorem new_selects_entries_not_older:
  assumes "process_new_package client PACKAGE_NEW s = Inr (0, s')"
    and "client < length (connections s)"
    and "hist_length (history s) \<le> length (messages (history s))"
    and "sorted_wrt (\<lambda>a b. \<not> older (msg_time a) (msg_time b)) (live (history s))"
  shows "new_entries client s =
           rev (filter (\<lambda>m. \<not> older (msg_time m)
                               (last_received_message (connections s ! client)))
                  (live (history s))) \<and>
         clock s (ticks s) = Some (last_received_message (connections s' ! client))"
proof -
  let ?cursor = "last_received_message (connections s ! client)"
  from assms(4) have "sorted_wrt (\<lambda>a b. \<not> older (msg_time b) (msg_time a)) (rev (live (history s)))"
    by (simp add: sorted_wrt_rev)
  then have "dropWhile (\<lambda>m. older (msg_time m) ?cursor) (rev (live (history s))) =
             filter (\<lambda>m. \<not> older (msg_time m) ?cursor) (rev (live (history s)))"
    by (rule dropWhile_sorted_filter) (rule not_older_trans)
  then have sel: "new_entries client s =
      rev (filter (\<lambda>m. \<not> older (msg_time m) ?cursor) (live (history s)))"
    by (simp add: new_entries_dropWhile(1)[OF assms(3)] rev_filter)
  from process_new_ok[OF assms(1-3)] obtain s2 now bytes where
    app: "appended client bytes s s2"
    and now: "clock s (ticks s) = Some now"
    and s': "s' = s2\<lparr>ticks := ticks s + 1,
              connections := (connections s2)
                [client := (connections s2 ! client)\<lparr>last_received_message := now\<rparr>]\<rparr>"
    by blast
  note fr = appended_frame[OF app assms(2)]
  from s' fr(7) assms(2) have "last_received_message (connections s' ! client) = now"
    by simp
  with now sel show ?thesis by simp
qed

text \<open>The hypotheses of C3 hold in the state \<^const>\<open>two_sent\<close>, for client 1.\<close>

theorem new_selects_entries_not_older_witness:
  "new_entries 1 two_sent = [entry ''bob'' ''hi'' 101, entry ''bob'' ''ho'' 102] \<and>
   map_sum id (\<lambda>(rc, s'). (rc, last_received_message (connections s' ! 1)))
     (process_new_package 1 PACKAGE_NEW two_sent)
   = Inr (0, \<lparr>tv_sec = 103, tv_nsec = 0\<rparr>)"
proof -
  have "map_sum id fst (process_new_package 1 PACKAGE_NEW two_sent) = Inr 0"
    by code_simp
  then obtain s' where ok: "process_new_package 1 PACKAGE_NEW two_sent = Inr (0, s')"
    by (cases "process_new_package 1 PACKAGE_NEW two_sent") auto
  have client: "1 < length (connections two_sent)"
    by code_simp
  have hist: "hist_length (history two_sent) \<le> length (messages (history two_sent))"
    by code_simp
  have sorted: "sorted_wrt (\<lambda>a b. \<not> older (msg_time a) (msg_time b)) (live (history two_sent))"
    by code_simp
  have sel: "rev (filter (\<lambda>m. \<not> older (msg_time m)
                               (last_received_message (connections two_sent ! 1)))
                  (live (history two_sent))) = [entry ''bob'' ''hi'' 101, entry ''bob'' ''ho'' 102]"
    by code_simp
  have clk: "clock two_sent (ticks two_sent) = Some \<lparr>tv_sec = 103, tv_nsec = 0\<rparr>"
    by (simp add: two_sent_def listening_def prepare_server_def example_clock_def)
  from new_selects_entries_not_older[OF ok client hist sorted] sel clk
  have "new_entries 1 two_sent = [entry ''bob'' ''hi'' 101, entry ''bob'' ''ho'' 102]"
    and "last_received_message (connections s' ! 1) = \<lparr>tv_sec = 103, tv_nsec = 0\<rparr>"
    by simp_all
  with ok show ?thesis by simp
qed

text \<open>
  Claim C3 as stated selects the entries strictly later than the cursor. With a clock
  that gives the same reading when the client is accepted and when its message is
  appended, the entry has the timestamp of the cursor: \<^verbatim>\<open>new\<close> selects it, and no entry is
  strictly later than the cursor.
\<close>

theorem new_selects_strictly_later_counterexample:
  "map_sum id
     (\<lambda>s. (last_received_message (connections s ! 1),
            new_entries 1 s,
            filter (\<lambda>m. older (last_received_message (connections s ! 1)) (msg_time m))
              (live (history s))))
     (run [[arrives 4],
           [quiet, readable (line ''send x'')],
           [quiet, writable (\<lambda>k. Sent 4)]]
        (prepare_server 3 stuck_clock example_localtime zero_message))
   = Inr (\<lparr>tv_sec = 100, tv_nsec = 0\<rparr>, [entry ''anonym'' ''x'' 100], [])"
  by code_simp

text \<open>
  Claim C8 (a second \<^verbatim>\<open>new\<close>), as the code has it. When a \<^verbatim>\<open>new\<close> has returned 0 and every
  entry of the history is older than the clock reading it stored as the cursor, the next
  \<^verbatim>\<open>new\<close> of the client (no append in between) returns 0 and appends the line \<^verbatim>\<open>0\<close> and
  nothing else.
\<close>

theorem second_new_is_empty:
  assumes "process_new_package client PACKAGE_NEW s = Inr (0, s1)"
    and "process_new_package client PACKAGE_NEW s1 = Inr (rc, s2)"
    and "client < length (connections s)"
    and "hist_length (history s) \<le> length (messages (history s))"
    and "clock s (ticks s) = Some now"
    and "list_all (\<lambda>m. older (msg_time m) now) (live (history s))"
  shows "rc = 0 \<and>
         pending_bytes (connections s2 ! client) =
           pending_bytes (connections s1 ! client) @ line ''0''"
proof -
  from process_new_ok[OF assms(1,3,4)] assms(5) obtain t bytes where
    app: "appended client bytes s t"
    and s1: "s1 = t\<lparr>ticks := ticks s + 1,
              connections := (connections t)
                [client := (connections t ! client)\<lparr>last_received_message := now\<rparr>]\<rparr>"
    by auto
  note fr = appended_frame[OF app assms(3)]
  from s1 fr assms(3) have hist1: "history s1 = history s"
    and len1: "length (connections s1) = length (connections s)"
    and cur1: "last_received_message (connections s1 ! client) = now"
    by simp_all
  from hist1 assms(4) have ok1: "hist_length (history s1) \<le> length (messages (history s1))"
    by simp
  from len1 assms(3) have client1: "client < length (connections s1)"
    by simp
  from assms(6) have "dropWhile (\<lambda>m. older (msg_time m) now) (rev (live (history s))) = []"
    by (simp add: list_all_iff)
  then have none: "new_entries client s1 = []"
    by (simp add: new_entries_dropWhile(1)[OF ok1] cur1 hist1)
  with new_entries_dropWhile(2)[OF ok1, of client]
  have "fst (scan s1 (last_received_message (connections s1 ! client))
               (int (hist_length (history s1)) - 1)) = - 1"
    by simp
  with assms(2) have rc: "rc = 0" by (rule process_new_rc)
  from process_new_ok[OF assms(2)[unfolded rc] client1 ok1] none obtain t2 now2 where
    app2: "appended client (line (sprintf_d 0)) s1 t2"
    and s2: "s2 = t2\<lparr>ticks := ticks s1 + 1,
              connections := (connections t2)
                [client := (connections t2 ! client)\<lparr>last_received_message := now2\<rparr>]\<rparr>"
    by auto
  note fr2 = appended_frame[OF app2 client1]
  have "pending_bytes (connections s2 ! client) = pending_bytes (connections t2 ! client)"
    using s2 fr2(7) client1 by (simp add: pending_bytes_def)
  with fr2(9) rc show ?thesis
    by (simp add: sprintf_d_def)
qed

text \<open>
  The hypotheses of C8 hold for two calls in a row from the state \<^const>\<open>two_sent\<close>, where
  the clock reads second 103 and the entries are of the seconds 101 and 102.
\<close>

theorem second_new_is_empty_witness:
  "map_sum id
     (\<lambda>(rc1, s1). (rc1,
        map_sum id (\<lambda>(rc, s2). (rc, pending_bytes (connections s2 ! 1)))
          (process_new_package 1 PACKAGE_NEW s1)))
     (process_new_package 1 PACKAGE_NEW two_sent)
   = Inr (0, Inr (0, line ''2'' @ line ''[00:01:41] bob: hi'' @ line ''[00:01:42] bob: ho'' @
                      line ''0''))"
proof -
  have "map_sum id fst (process_new_package 1 PACKAGE_NEW two_sent) = Inr 0"
    by code_simp
  then obtain s1 where first: "process_new_package 1 PACKAGE_NEW two_sent = Inr (0, s1)"
    by (cases "process_new_package 1 PACKAGE_NEW two_sent") auto
  have "map_sum id (\<lambda>(rc1, s1). map_sum id (\<lambda>(rc, s2). ()) (process_new_package 1 PACKAGE_NEW s1))
          (process_new_package 1 PACKAGE_NEW two_sent) = Inr (Inr ())"
    by code_simp
  with first obtain rc s2 where second: "process_new_package 1 PACKAGE_NEW s1 = Inr (rc, s2)"
    by (cases "process_new_package 1 PACKAGE_NEW s1") auto
  have bytes1: "map_sum id (\<lambda>(rc, s'). pending_bytes (connections s' ! 1))
          (process_new_package 1 PACKAGE_NEW two_sent)
        = Inr (line ''2'' @ line ''[00:01:41] bob: hi'' @ line ''[00:01:42] bob: ho'')"
    by code_simp
  have client: "1 < length (connections two_sent)"
    by code_simp
  have hist: "hist_length (history two_sent) \<le> length (messages (history two_sent))"
    by code_simp
  have clk: "clock two_sent (ticks two_sent) = Some \<lparr>tv_sec = 103, tv_nsec = 0\<rparr>"
    by (simp add: two_sent_def listening_def prepare_server_def example_clock_def)
  have older: "list_all (\<lambda>m. older (msg_time m) \<lparr>tv_sec = 103, tv_nsec = 0\<rparr>)
                 (live (history two_sent))"
    by code_simp
  from second_new_is_empty[OF first second client hist clk older] bytes1 first
  have "rc = 0"
    and "pending_bytes (connections s2 ! 1) =
         line ''2'' @ line ''[00:01:41] bob: hi'' @ line ''[00:01:42] bob: ho'' @ line ''0''"
    by simp_all
  with first second show ?thesis by simp
qed

text \<open>
  Claim C8 as stated has no condition on the clock. With a clock that does not advance,
  a client sends \<^verbatim>\<open>send x\<close> and then \<^verbatim>\<open>new\<close> twice: both replies have the count 1 and the
  line of the entry.
\<close>

theorem second_new_counterexample:
  "map_sum id (\<lambda>s. pending_bytes (connections s ! 1))
     (run [[arrives 4],
           [quiet, readable (line ''send x'')],
           [quiet, writable (\<lambda>k. Sent 4)],
           [quiet, readable (line ''new'' @ line ''new'')]]
        (prepare_server 3 stuck_clock example_localtime zero_message))
   = Inr (line ''1'' @ line ''[00:01:40] anonym: x'' @
          line ''1'' @ line ''[00:01:40] anonym: x'')"
  by code_simp

section \<open>Where the code leaves the specification\<close>

text \<open>
  Claim C1 (pool accounting): at every boundary between two passes of the event loop the
  free blocks and the blocks held by the output queues of the table add up to
  \<^const>\<open>BUFFER_POOL_SIZE\<close>, and compaction releases the blocks of a closed connection.
  \<^verbatim>\<open>clean_closed_sockets\<close> releases nothing. A client that sends \<^verbatim>\<open>my name is bob\<close> and
  \<^verbatim>\<open>garble\<close> in one segment is answered \<^verbatim>\<open>ok\<close> (one block), closed on the second package
  and dropped from the table with the block still in its queue: after the pass 15 blocks
  are free and none is held.
\<close>

theorem closed_connection_leaks_block:
  "map_sum id (\<lambda>s. (free_blocks s, held_blocks s, length (connections s), BUFFER_POOL_SIZE))
     (run [[arrives 4],
           [quiet, readable (line ''my name is bob'' @ line ''garble'')]] listening)
   = Inr (15, 0, 1, 16)"
  by code_simp

text \<open>
  Claim C4 (history bounds): an append keeps the history within \<^const>\<open>MAX_HISTORY_LENGTH\<close>
  entries, also when the history is full. The \<^verbatim>\<open>memmove\<close> of \<^verbatim>\<open>add_to_history\<close> moves all
  \<open>length\<close> entries one place up, so the 51st \<^verbatim>\<open>send\<close> of a run stores an entry at index 50,
  behind the array. (The client sends 21, 21 and 9 packages \<^verbatim>\<open>send x\<close>; its replies are
  drained in between.)
\<close>

theorem append_to_full_history_overflows:
  "fault_of
     (run [[arrives 4],
           [quiet, readable (concat (replicate 21 (line ''send x'')))],
           [quiet, writable (\<lambda>k. Sent 84)],
           [quiet, readable (concat (replicate 21 (line ''send x'')))],
           [quiet, writable (\<lambda>k. Sent 84)],
           [quiet, readable (concat (replicate 9 (line ''send x'')))]] listening)
   = Some (OutOfBoundsWrite ''history.messages'' MAX_HISTORY_LENGTH)"
  by code_simp

text \<open>
  Claim C5 (violations close the connection): a package with an oversize field closes the
  TCP connection of the client. For a nick of 21 bytes \<^verbatim>\<open>process_new_package\<close> calls
  \<^verbatim>\<open>close\<close> on the socket (descriptor 4 below); for a message of 141 bytes it returns -1
  without the call: the slot leaves the table and the socket stays open.
\<close>

theorem oversize_send_leaves_socket_open:
  "map_sum id (\<lambda>s. (length (connections s), closed_fds s))
     (run [[arrives 4],
           [quiet, readable (line (PACKAGE_BEGIN_MY_NAME_IS @ replicate 21 CHR ''n''))]]
        listening)
   = Inr (1, [4]) \<and>
   map_sum id (\<lambda>s. (length (connections s), closed_fds s))
     (run [[arrives 4],
           [quiet, readable (line (PACKAGE_BEGIN_SEND @ replicate 141 CHR ''x''))]]
        listening)
   = Inr (1, [])"
  by code_simp

text \<open>
  Claim C6 (full table): a client that arrives while the table holds \<^const>\<open>MAX_CONNECTIONS\<close>
  slots is rejected and nothing is stored at or behind index \<^const>\<open>MAX_CONNECTIONS\<close>.
  \<^verbatim>\<open>accept_new_client\<close> has no such check: it stores the new slot at index
  \<open>connections.length\<close>, whatever the length.
\<close>

theorem accept_on_full_table_overflows:
  assumes "length (connections s) = MAX_CONNECTIONS" and "0 \<le> client_fd"
  shows "accept_new_client client_fd s =
           Inl (OutOfBoundsWrite ''connections.sockets'' MAX_CONNECTIONS)"
  using assms by (simp add: accept_new_client_def)

theorem accept_on_full_table_overflows_witness:
  "accept_new_client 5
     (listening\<lparr>connections := replicate MAX_CONNECTIONS (hd (connections listening))\<rparr>) =
   Inl (OutOfBoundsWrite ''connections.sockets'' MAX_CONNECTIONS)"
  by (rule accept_on_full_table_overflows) simp_all

text \<open>
  Claim C7 (partial writes): when \<^verbatim>\<open>send\<close> takes fewer bytes than the head block holds,
  the block is updated in place and the drain stops, and the assertion
  \<^verbatim>\<open>sent == buffer->buffer.used\<close> holds for every answer of \<^verbatim>\<open>send\<close>. The code has the
  assertion and no other handling: when \<^verbatim>\<open>send\<close> takes 2 of the 4 bytes of the reply
  \<^verbatim>\<open>ok\<close>, the assertion fails.
\<close>

theorem partial_send_fails_assertion:
  "fault_of
     (run [[arrives 4],
           [quiet, readable (line ''my name is bob'')],
           [quiet, writable (\<lambda>k. Sent 2)]] listening)
   = Some (AssertionFailed ''sent == buffer->buffer.used'')"
  by code_simp

text \<open>
  Claim C9 (reads of the history): every index at which \<^verbatim>\<open>new\<close> reads
  \<^verbatim>\<open>history.messages\<close> lies in \<open>[0, history.length)\<close>. The first loop of the branch reads
  the entry before it tests \<open>i >= 0\<close>: with an empty history its only read is at index
  -1, and with one entry that is older than the cursor it reads at 0 and then at -1.
\<close>

theorem scan_reads_before_history:
  "snd (scan listening \<lparr>tv_sec = 100, tv_nsec = 0\<rparr>
          (int (hist_length (history listening)) - 1)) = [- 1] \<and>
   map_sum id
     (\<lambda>s. (hist_length (history s),
            snd (scan s \<lparr>tv_sec = 105, tv_nsec = 0\<rparr> (int (hist_length (history s)) - 1))))
     (run [[arrives 4], [quiet, readable (line ''send x'')]] listening) = Inr (1, [0, - 1])"
  by code_simp

text \<open>
  Claim C10 (the formatted line fits): the line of every history entry fits, with its
  NUL, into \<^verbatim>\<open>outgoing\<close>, an array of \<^const>\<open>MAX_PACKAGE_LENGTH\<close> bytes. The line of an
  entry with a nick of 20 and a message of 140 bytes has 173 characters, so \<^verbatim>\<open>sprintf\<close>
  stores 174 bytes: the NUL goes behind the array. Such an entry is accepted by
  \<^verbatim>\<open>my name is\<close> and \<^verbatim>\<open>send\<close>, and the next \<^verbatim>\<open>new\<close> formats it.
\<close>

theorem longest_line_overflows_outgoing:
  "length (format_message \<lparr>tm_hour = 0, tm_min = 1, tm_sec = 42\<rparr>
             \<lparr>msg_nick = replicate MAX_NICK_LENGTH CHR ''n'',
              msg_data = replicate MAX_MESSAGE_LENGTH CHR ''x'',
              msg_time = \<lparr>tv_sec = 102, tv_nsec = 0\<rparr>\<rparr>) + 1 = MAX_PACKAGE_LENGTH + 1 \<and>
   fault_of
     (run [[arrives 4],
           [quiet, readable (line (PACKAGE_BEGIN_MY_NAME_IS @ replicate MAX_NICK_LENGTH CHR ''n''))],
           [quiet, writable (\<lambda>k. Sent 4)],
           [quiet, readable (line (PACKAGE_BEGIN_SEND @ replicate MAX_MESSAGE_LENGTH CHR ''x'') @
                             line PACKAGE_NEW)]] listening)
   = Some (OutOfBoundsWrite ''outgoing'' MAX_PACKAGE_LENGTH)"
  by code_simp

end
